theory Spec2Isabelle
  imports Main "HOL-Library.Code_Target_Nat"
begin

text \<open>
  The local formatter of the Daywise plugin, \<^verbatim>\<open>localFormatToTable\<close> in \<^verbatim>\<open>src/main.ts\<close>, turns
  the text of a daily note into a Markdown table with the columns Time, Activity and
  Notes. This theory embeds the function with its inner \<^verbatim>\<open>normalizeTime\<close> and with each of
  its regular expressions as a function on strings, and proves what the specification
  says of them.
\<close>

section \<open>Strings\<close>

text \<open>
  A JavaScript string is a sequence of UTF-16 code units, and the regular expressions of
  \<^verbatim>\<open>localFormatToTable\<close> (none has the \<^verbatim>\<open>u\<close> flag) work on code units. A code unit is
  modelled by its number; \<open>str\<close> embeds an ASCII literal.
\<close>

type_synonym cu = nat
type_synonym jsstring = "cu list"

definition str :: "string \<Rightarrow> jsstring" where
  "str s = map of_char s"

abbreviation (input) LF :: cu where "LF \<equiv> 10"
abbreviation (input) CR :: cu where "CR \<equiv> 13"
abbreviation (input) SP :: cu where "SP \<equiv> 32"
abbreviation (input) BANG :: cu where "BANG \<equiv> 33"
abbreviation (input) DASH :: cu where "DASH \<equiv> 45"
abbreviation (input) COLON :: cu where "COLON \<equiv> 58"
abbreviation (input) LBRACKET :: cu where "LBRACKET \<equiv> 91"
abbreviation (input) RBRACKET :: cu where "RBRACKET \<equiv> 93"
abbreviation (input) PIPE :: cu where "PIPE \<equiv> 124"
abbreviation (input) ENDASH :: cu where "ENDASH \<equiv> 8211"
abbreviation (input) EMDASH :: cu where "EMDASH \<equiv> 8212"

text \<open>The character classes \<^verbatim>\<open>\d\<close>, \<^verbatim>\<open>\w\<close>, \<^verbatim>\<open>\s\<close> and the line terminators that \<^verbatim>\<open>.\<close> excludes.\<close>

definition isDigit :: "cu \<Rightarrow> bool" where
  "isDigit c = (48 \<le> c \<and> c \<le> 57)"

definition isWordChar :: "cu \<Rightarrow> bool" where
  "isWordChar c = (isDigit c \<or> (65 \<le> c \<and> c \<le> 90) \<or> (97 \<le> c \<and> c \<le> 122) \<or> c = 95)"

definition isLineTerminator :: "cu \<Rightarrow> bool" where
  "isLineTerminator c = (c = LF \<or> c = CR \<or> c = 8232 \<or> c = 8233)"

definition isSpace :: "cu \<Rightarrow> bool" where
  "isSpace c = ((9 \<le> c \<and> c \<le> 13) \<or> c = SP \<or> c = 160 \<or> c = 5760 \<or> (8192 \<le> c \<and> c \<le> 8202)
     \<or> c = 8232 \<or> c = 8233 \<or> c = 8239 \<or> c = 8287 \<or> c = 12288 \<or> c = 65279)"

text \<open>
  \<^verbatim>\<open>toUpperCase\<close> is applied to the meridiem group only (one of am, pm, AM, PM) and
  \<^verbatim>\<open>toLowerCase\<close> feeds the two \<^verbatim>\<open>includes\<close> tests for the ASCII words till and to; both are
  modelled on the ASCII letters and leave every other code unit as it is. Lemma
  \<open>rangeStep_split\<close> below shows that the two tests never decide the result.
\<close>

definition toUpperCase :: "jsstring \<Rightarrow> jsstring" where
  "toUpperCase s = map (\<lambda>c. if 97 \<le> c \<and> c \<le> 122 then c - 32 else c) s"

definition toLowerCase :: "jsstring \<Rightarrow> jsstring" where
  "toLowerCase s = map (\<lambda>c. if 65 \<le> c \<and> c \<le> 90 then c + 32 else c) s"

text \<open>\<^verbatim>\<open>String.prototype.trim\<close>: white space and line terminators go from both ends.\<close>

definition trim :: "jsstring \<Rightarrow> jsstring" where
  "trim s = rev (dropWhile isSpace (rev (dropWhile isSpace s)))"

text \<open>\<^verbatim>\<open>String.prototype.includes\<close> with a string argument.\<close>

fun includesStr :: "jsstring \<Rightarrow> jsstring \<Rightarrow> bool" where
  "includesStr pat [] = (pat = [])"
| "includesStr pat (c # cs) = (take (length pat) (c # cs) = pat \<or> includesStr pat cs)"

text \<open>
  \<^verbatim>\<open>s.replace(pat, '')\<close> with a string pattern: the first occurrence of \<open>pat\<close> in \<open>s\<close>
  is removed, wherever it is.
\<close>

fun removeFirst :: "jsstring \<Rightarrow> jsstring \<Rightarrow> jsstring" where
  "removeFirst pat [] = []"
| "removeFirst pat (c # cs) =
     (if take (length pat) (c # cs) = pat then drop (length pat) (c # cs)
      else c # removeFirst pat cs)"

text \<open>
  \<^verbatim>\<open>\b\<close> at a position, given the code unit before it (if any) and the rest of the string.
\<close>

definition wordBefore :: "cu option \<Rightarrow> bool" where
  "wordBefore p = (case p of None \<Rightarrow> False | Some c \<Rightarrow> isWordChar c)"

definition wordAfter :: "jsstring \<Rightarrow> bool" where
  "wordAfter r = (case r of [] \<Rightarrow> False | c # _ \<Rightarrow> isWordChar c)"

definition wordBoundary :: "cu option \<Rightarrow> jsstring \<Rightarrow> bool" where
  "wordBoundary p r = (wordBefore p \<noteq> wordAfter r)"

section \<open>The lines of the note\<close>

text \<open>
  \<^verbatim>\<open>content.split(/\r?\n/)\<close>: a separator is a line feed, with the carriage return before
  it when there is one. \<open>cur\<close> is the current piece, reversed.
\<close>

fun splitLinesFrom :: "jsstring \<Rightarrow> jsstring \<Rightarrow> jsstring list" where
  "splitLinesFrom cur [] = [rev cur]"
| "splitLinesFrom cur (c # cs) =
     (if c = CR \<and> take 1 cs = [LF] then rev cur # splitLinesFrom [] (drop 1 cs)
      else if c = LF then rev cur # splitLinesFrom [] cs
      else splitLinesFrom (c # cur) cs)"

definition splitLines :: "jsstring \<Rightarrow> jsstring list" where
  "splitLines content = splitLinesFrom [] content"

text \<open>\<^verbatim>\<open>content.split(/\r?\n/).map(l => l.trim()).filter(Boolean)\<close>\<close>

definition linesOf :: "jsstring \<Rightarrow> jsstring list" where
  "linesOf content = filter (\<lambda>l. l \<noteq> []) (map trim (splitLines content))"

section \<open>The time pattern\<close>

text \<open>
  \<^verbatim>\<open>/\b(\d{1,2})(?::(\d{2}))?\s*(am|pm|AM|PM)?\b/\<close>, matched by backtracking: every
  quantifier is greedy, so the longer alternative is tried first and the shorter one only
  when the rest of the pattern fails. A match records what \<^verbatim>\<open>String.prototype.match\<close>
  returns: the index, the matched text and the three groups.
\<close>

record tmatch =
  index :: nat
  whole :: jsstring
  g1 :: jsstring
  g2 :: "jsstring option"
  g3 :: "jsstring option"

text \<open>\<^verbatim>\<open>(am|pm|AM|PM)\<close> at the head of \<open>r\<close>.\<close>

definition meridiemPrefix :: "jsstring \<Rightarrow> jsstring option" where
  "meridiemPrefix r =
     (if take 2 r = str ''am'' then Some (str ''am'')
      else if take 2 r = str ''pm'' then Some (str ''pm'')
      else if take 2 r = str ''AM'' then Some (str ''AM'')
      else if take 2 r = str ''PM'' then Some (str ''PM'')
      else None)"

text \<open>\<^verbatim>\<open>(am|pm|AM|PM)?\b\<close>: the matched text and group 3.\<close>

definition matchMeridiem :: "cu option \<Rightarrow> jsstring \<Rightarrow> (jsstring \<times> jsstring option) option" where
  "matchMeridiem p r =
     (case meridiemPrefix r of
        Some mer \<Rightarrow>
          if wordBoundary (Some (last mer)) (drop 2 r) then Some (mer, Some mer)
          else if wordBoundary p r then Some ([], None) else None
      | None \<Rightarrow> if wordBoundary p r then Some ([], None) else None)"

text \<open>
  \<^verbatim>\<open>\s*(am|pm|AM|PM)?\b\<close> with \<open>k\<close> white-space units taken first, then fewer. It is only
  called through \<open>matchTail\<close>, with \<open>k\<close> at most the length of the white space at the head of
  \<open>r\<close>, so that \<open>r ! k\<close> is the last unit taken.
\<close>

fun matchSpaces :: "nat \<Rightarrow> cu option \<Rightarrow> jsstring \<Rightarrow> (jsstring \<times> jsstring option) option" where
  "matchSpaces 0 p r = matchMeridiem p r"
| "matchSpaces (Suc k) p r =
     (case matchMeridiem (Some (r ! k)) (drop (Suc k) r) of
        Some (t, g) \<Rightarrow> Some (take (Suc k) r @ t, g)
      | None \<Rightarrow> matchSpaces k p r)"

definition matchTail :: "cu option \<Rightarrow> jsstring \<Rightarrow> (jsstring \<times> jsstring option) option" where
  "matchTail p r = matchSpaces (length (takeWhile isSpace r)) p r"

text \<open>\<^verbatim>\<open>(?::(\d{2}))?\s*(am|pm|AM|PM)?\b\<close>: the matched text, group 2 and group 3.\<close>

definition matchNoMinutes ::
  "cu option \<Rightarrow> jsstring \<Rightarrow> (jsstring \<times> jsstring option \<times> jsstring option) option" where
  "matchNoMinutes p r = (case matchTail p r of Some (t, g) \<Rightarrow> Some (t, None, g) | None \<Rightarrow> None)"

fun matchMinutes ::
  "cu option \<Rightarrow> jsstring \<Rightarrow> (jsstring \<times> jsstring option \<times> jsstring option) option" where
  "matchMinutes p (c # m1 # m2 # r) =
     (if c = COLON \<and> isDigit m1 \<and> isDigit m2 then
        (case matchTail (Some m2) r of
           Some (t, g) \<Rightarrow> Some (c # m1 # m2 # t, Some [m1, m2], g)
         | None \<Rightarrow> matchNoMinutes p (c # m1 # m2 # r))
      else matchNoMinutes p (c # m1 # m2 # r))"
| "matchMinutes p r = matchNoMinutes p r"

text \<open>The whole pattern at one position: two digits first, then one.\<close>

definition matchOneDigit ::
  "cu \<Rightarrow> jsstring \<Rightarrow> (jsstring \<times> jsstring \<times> jsstring option \<times> jsstring option) option" where
  "matchOneDigit d1 r =
     (case matchMinutes (Some d1) r of
        Some (t, mi, g) \<Rightarrow> Some ([d1], t, mi, g)
      | None \<Rightarrow> None)"

fun matchDigits ::
  "jsstring \<Rightarrow> (jsstring \<times> jsstring \<times> jsstring option \<times> jsstring option) option" where
  "matchDigits [] = None"
| "matchDigits [d1] = (if isDigit d1 then matchOneDigit d1 [] else None)"
| "matchDigits (d1 # d2 # r) =
     (if \<not> isDigit d1 then None
      else if isDigit d2 then
        (case matchMinutes (Some d2) r of
           Some (t, mi, g) \<Rightarrow> Some ([d1, d2], t, mi, g)
         | None \<Rightarrow> matchOneDigit d1 (d2 # r))
      else matchOneDigit d1 (d2 # r))"

definition matchTimeAt ::
  "cu option \<Rightarrow> jsstring \<Rightarrow> (jsstring \<times> jsstring \<times> jsstring option \<times> jsstring option) option" where
  "matchTimeAt p r = (if wordBoundary p r then matchDigits r else None)"

text \<open>The search for the first position with a match, from the left.\<close>

fun searchTime :: "nat \<Rightarrow> cu option \<Rightarrow> jsstring \<Rightarrow> tmatch option" where
  "searchTime i p [] = None"
| "searchTime i p (c # cs) =
     (case matchTimeAt p (c # cs) of
        Some (d, t, mi, g) \<Rightarrow> Some \<lparr>index = i, whole = d @ t, g1 = d, g2 = mi, g3 = g\<rparr>
      | None \<Rightarrow> searchTime (Suc i) (Some c) cs)"

definition matchTime :: "jsstring \<Rightarrow> tmatch option" where
  "matchTime s = searchTime 0 None s"

text \<open>\<^verbatim>\<open>s.replace(timeRegex, '')\<close>: the first match is cut out at its index.\<close>

definition removeTime :: "jsstring \<Rightarrow> jsstring" where
  "removeTime s =
     (case matchTime s of
        None \<Rightarrow> s
      | Some m \<Rightarrow> take (index m) s @ drop (index m + length (whole m)) s)"

section \<open>normalizeTime\<close>

text \<open>\<^verbatim>\<open>parseInt(digits, 10)\<close> on a string of decimal digits, and \<^verbatim>\<open>Number.toString\<close>.\<close>

definition parseInt :: "jsstring \<Rightarrow> nat" where
  "parseInt ds = foldl (\<lambda>n c. 10 * n + (c - 48)) 0 ds"

fun numToString :: "nat \<Rightarrow> jsstring" where
  "numToString n = (if n < 10 then [48 + n] else numToString (n div 10) @ [48 + n mod 10])"

declare numToString.simps [simp del]

definition padStart2 :: "jsstring \<Rightarrow> jsstring" where
  "padStart2 s = replicate (2 - length s) 48 @ s"

text \<open>
  The steps of \<^verbatim>\<open>normalizeTime\<close> in the order of the source: the meridiem is inferred first,
  then hour 0 becomes 12, then an hour above 12 loses 12 and forces PM.
\<close>

definition normalizeTime :: "tmatch option \<Rightarrow> jsstring option" where
  "normalizeTime mt =
     (case mt of
        None \<Rightarrow> None
      | Some m \<Rightarrow>
          let hour = parseInt (g1 m);
              minute = parseInt (case g2 m of None \<Rightarrow> str ''0'' | Some d \<Rightarrow> d);
              meridiem = toUpperCase (case g3 m of None \<Rightarrow> [] | Some x \<Rightarrow> x);
              meridiem1 = (if meridiem = [] then
                             (if 7 \<le> hour \<and> hour \<le> 11 then str ''AM'' else str ''PM'')
                           else meridiem);
              hour1 = (if hour = 0 then 12 else hour);
              hour2 = (if hour1 > 12 then hour1 - 12 else hour1);
              meridiem2 = (if hour1 > 12 then str ''PM'' else meridiem1);
              mm = padStart2 (numToString minute)
          in Some (numToString hour2 @ [COLON] @ mm @ [SP] @ meridiem2))"

section \<open>The pieces of a line\<close>

text \<open>
  \<^verbatim>\<open>line.match(/\[(.*?)\]/)\<close>: from the first opening bracket that has a closing bracket
  after it on the same line, up to the nearest closing bracket. The result is the matched
  text and group 1.
\<close>

fun bracketInner :: "jsstring \<Rightarrow> jsstring option" where
  "bracketInner [] = None"
| "bracketInner (c # cs) =
     (if c = RBRACKET then Some []
      else if isLineTerminator c then None
      else (case bracketInner cs of None \<Rightarrow> None | Some inner \<Rightarrow> Some (c # inner)))"

fun matchDuration :: "jsstring \<Rightarrow> (jsstring \<times> jsstring) option" where
  "matchDuration [] = None"
| "matchDuration (c # cs) =
     (if c = LBRACKET then
        (case bracketInner cs of
           Some inner \<Rightarrow> Some ([LBRACKET] @ inner @ [RBRACKET], inner)
         | None \<Rightarrow> matchDuration cs)
      else matchDuration cs)"

text \<open>
  \<^verbatim>\<open>/\b(?:till|to)\b/i\<close> at one position: the length of the match. Without the \<^verbatim>\<open>u\<close>
  flag, ignoring case never equates an ASCII letter with a code unit outside ASCII.
\<close>

definition matchWordAt :: "jsstring \<Rightarrow> jsstring \<Rightarrow> bool" where
  "matchWordAt w r =
     (toLowerCase (take (length w) r) = w \<and> \<not> wordAfter (drop (length w) r))"

definition matchRangeWordAt :: "cu option \<Rightarrow> jsstring \<Rightarrow> nat option" where
  "matchRangeWordAt p r =
     (if wordBefore p then None
      else if matchWordAt (str ''till'') r then Some 4
      else if matchWordAt (str ''to'') r then Some 2
      else None)"

text \<open>
  \<^verbatim>\<open>line.split(/\b(?:till|to)\b/i)\<close>: \<open>cur\<close> is the current piece, reversed, and \<open>p\<close> the
  code unit before the position. After a match of length \<open>n\<close> the next piece starts
  behind it.
\<close>

fun splitRangeFrom :: "jsstring \<Rightarrow> cu option \<Rightarrow> jsstring \<Rightarrow> jsstring list" where
  "splitRangeFrom cur p [] = [rev cur]"
| "splitRangeFrom cur p (c # cs) =
     (case matchRangeWordAt p (c # cs) of
        Some n \<Rightarrow> rev cur # splitRangeFrom [] (Some (last (take n (c # cs)))) (drop (n - 1) cs)
      | None \<Rightarrow> splitRangeFrom (c # cur) (Some c) cs)"

definition splitRange :: "jsstring \<Rightarrow> jsstring list" where
  "splitRange line = splitRangeFrom [] None line"

text \<open>\<^verbatim>\<open>s.replace(/\b(at|around|by)\b/i, '')\<close>: the first match from the left is cut out.\<close>

definition matchFillerAt :: "cu option \<Rightarrow> jsstring \<Rightarrow> nat option" where
  "matchFillerAt p r =
     (if wordBefore p then None
      else if matchWordAt (str ''at'') r then Some 2
      else if matchWordAt (str ''around'') r then Some 6
      else if matchWordAt (str ''by'') r then Some 2
      else None)"

fun removeFillerFrom :: "cu option \<Rightarrow> jsstring \<Rightarrow> jsstring" where
  "removeFillerFrom p [] = []"
| "removeFillerFrom p (c # cs) =
     (case matchFillerAt p (c # cs) of
        Some n \<Rightarrow> drop n (c # cs)
      | None \<Rightarrow> c # removeFillerFrom (Some c) cs)"

definition removeFiller :: "jsstring \<Rightarrow> jsstring" where
  "removeFiller s = removeFillerFrom None s"

section \<open>Cleaning the activity\<close>

text \<open>\<^verbatim>\<open>.replace(/^-+\s*/, '')\<close>\<close>

definition stripLeadingDashes :: "jsstring \<Rightarrow> jsstring" where
  "stripLeadingDashes s =
     (case s of
        [] \<Rightarrow> s
      | c # cs \<Rightarrow> if c = DASH then dropWhile isSpace (dropWhile (\<lambda>x. x = DASH) cs) else s)"

text \<open>\<^verbatim>\<open>.replace(/\s{2,}/g, ' ')\<close>: every run of two or more white-space units becomes one space.\<close>

function collapseSpaces :: "jsstring \<Rightarrow> jsstring" where
  "collapseSpaces [] = []"
| "collapseSpaces [c] = [c]"
| "collapseSpaces (c # d # cs) =
     (if isSpace c \<and> isSpace d then SP # collapseSpaces (dropWhile isSpace cs)
      else c # collapseSpaces (d # cs))"
  by pat_completeness auto
termination
  by (relation "measure length") (auto intro!: le_less_trans [OF length_dropWhile_le])

text \<open>\<^verbatim>\<open>.replace(/[!]+/g, '')\<close>\<close>

definition removeBangs :: "jsstring \<Rightarrow> jsstring" where
  "removeBangs s = filter (\<lambda>c. c \<noteq> BANG) s"

text \<open>
  \<^verbatim>\<open>.replace(/\s*-\s*$/, '')\<close>: the pattern matches at a position when white space, one
  dash and white space reach the end of the string from there; the first such position
  from the left is where the string is cut.
\<close>

definition matchTrailingDashAt :: "jsstring \<Rightarrow> bool" where
  "matchTrailingDashAt r =
     (case dropWhile isSpace r of
        [] \<Rightarrow> False
      | c # r' \<Rightarrow> c = DASH \<and> dropWhile isSpace r' = [])"

fun stripTrailingDash :: "jsstring \<Rightarrow> jsstring" where
  "stripTrailingDash [] = []"
| "stripTrailingDash (c # cs) =
     (if matchTrailingDashAt (c # cs) then [] else c # stripTrailingDash cs)"

definition cleanActivity :: "jsstring \<Rightarrow> jsstring" where
  "cleanActivity a = trim (stripTrailingDash (removeBangs (collapseSpaces (stripLeadingDashes a))))"

section \<open>localFormatToTable\<close>

record row =
  time :: jsstring
  activity :: jsstring
  "notes" :: jsstring

text \<open>
  The only operation of the function that can throw is the read \<^verbatim>\<open>m![0]\<close> of the single
  time branch: \<^verbatim>\<open>m\<close> is the result of \<^verbatim>\<open>String.prototype.match\<close> and reading an index of
  \<^verbatim>\<open>null\<close> is a TypeError.
\<close>

datatype error = TypeError

text \<open>A string is truthy when it is neither \<^verbatim>\<open>null\<close> nor empty.\<close>

definition truthy :: "jsstring option \<Rightarrow> bool" where
  "truthy t = (case t of None \<Rightarrow> False | Some s \<Rightarrow> s \<noteq> [])"

definition orEmpty :: "jsstring option \<Rightarrow> jsstring" where
  "orEmpty t = (case t of None \<Rightarrow> [] | Some s \<Rightarrow> s)"

text \<open>
  The bracket step: \<open>notes\<close> and \<open>activity\<close> after
  \<^verbatim>\<open>if (durationMatch) { notes = durationMatch[1]; activity = activity.replace(durationMatch[0], '').trim(); }\<close>
\<close>

definition durationStep :: "jsstring \<Rightarrow> jsstring \<times> jsstring" where
  "durationStep line =
     (case matchDuration line of
        None \<Rightarrow> ([], line)
      | Some (m0, m1) \<Rightarrow> (m1, trim (removeFirst m0 line)))"

text \<open>
  The range step: \<open>time\<close> and \<open>activity\<close> after the block under
  \<^verbatim>\<open>if (lower.includes('till') || lower.includes('to'))\<close>. It splits \<^verbatim>\<open>line\<close>.
\<close>

definition rangeStep :: "jsstring \<Rightarrow> jsstring \<Rightarrow> jsstring \<times> jsstring" where
  "rangeStep line activity0 =
     (let lower = toLowerCase line in
      if includesStr (str ''till'') lower \<or> includesStr (str ''to'') lower then
        (case splitRange line of
           [part0, part1] \<Rightarrow>
             let startMatch = matchTime part0;
                 endMatch = matchTime part1;
                 start = normalizeTime startMatch;
                 end = normalizeTime endMatch
             in if truthy start \<and> truthy end
                then (orEmpty start @ [ENDASH] @ orEmpty end, trim (removeTime part0))
                else ([], activity0)
         | _ \<Rightarrow> ([], activity0))
      else ([], activity0))"

text \<open>
  The single time step, under \<^verbatim>\<open>if (!time)\<close>. It matches \<^verbatim>\<open>line\<close> and rebuilds the activity
  from \<^verbatim>\<open>line\<close>.
\<close>

definition singleStep :: "jsstring \<Rightarrow> jsstring \<times> jsstring \<Rightarrow> error + jsstring \<times> jsstring" where
  "singleStep line ta =
     (if fst ta = [] then
        (let m = matchTime line;
             t = normalizeTime m
         in if truthy t then
              (case m of
                 None \<Rightarrow> Inl TypeError
               | Some mm \<Rightarrow> Inr (orEmpty t, trim (removeFiller (removeFirst (whole mm) line))))
            else Inr ta)
      else Inr ta)"

text \<open>One iteration of \<^verbatim>\<open>for (const line of lines)\<close>: the row that is pushed.\<close>

definition rowOfLine :: "jsstring \<Rightarrow> error + row" where
  "rowOfLine line =
     (let (notes0, activity0) = durationStep line in
      case singleStep line (rangeStep line activity0) of
        Inl e \<Rightarrow> Inl e
      | Inr (time1, activity1) \<Rightarrow>
          let activity2 = cleanActivity activity1;
              activity3 = (if activity2 = [] then [EMDASH] else activity2)
          in Inr \<lparr>time = (if time1 = [] then [EMDASH] else time1),
                  activity = activity3, notes = notes0\<rparr>)"

fun rowsOf :: "jsstring list \<Rightarrow> error + row list" where
  "rowsOf [] = Inr []"
| "rowsOf (l # ls) =
     (case rowOfLine l of
        Inl e \<Rightarrow> Inl e
      | Inr r \<Rightarrow> (case rowsOf ls of Inl e \<Rightarrow> Inl e | Inr rs \<Rightarrow> Inr (r # rs)))"

text \<open>\<^verbatim>\<open>`| ${r.time} | ${r.activity} | ${r.notes || '-'} |`\<close>\<close>

definition renderRow :: "row \<Rightarrow> jsstring" where
  "renderRow r =
     str ''| '' @ time r @ str '' | '' @ activity r @ str '' | ''
       @ (if notes r = [] then str ''-'' else notes r) @ str '' |''"

text \<open>\<^verbatim>\<open>Array.prototype.join('\n')\<close>\<close>

fun joinLines :: "jsstring list \<Rightarrow> jsstring" where
  "joinLines [] = []"
| "joinLines [x] = x"
| "joinLines (x # y # ys) = x @ [LF] @ joinLines (y # ys)"

definition header :: jsstring where
  "header = str ''| Time | Activity | Notes |''"

definition sep :: jsstring where
  "sep = str ''|---|---|---|''"

definition localFormatToTable :: "jsstring \<Rightarrow> error + jsstring" where
  "localFormatToTable content =
     (case rowsOf (linesOf content) of
        Inl e \<Rightarrow> Inl e
      | Inr rows \<Rightarrow> Inr (header @ [LF] @ sep @ [LF] @ joinLines (map renderRow rows)))"

section \<open>What the specification says of the output\<close>

text \<open>
  The groups of a match of the time pattern: one or two digits, two digits or nothing,
  one of the four meridiem spellings or nothing.
\<close>

definition validG2 :: "jsstring option \<Rightarrow> bool" where
  "validG2 g = (case g of None \<Rightarrow> True | Some d \<Rightarrow> length d = 2 \<and> list_all isDigit d)"

definition validG3 :: "jsstring option \<Rightarrow> bool" where
  "validG3 g =
     (case g of
        None \<Rightarrow> True
      | Some x \<Rightarrow> x = str ''am'' \<or> x = str ''pm'' \<or> x = str ''AM'' \<or> x = str ''PM'')"

definition validMatch :: "tmatch \<Rightarrow> bool" where
  "validMatch m =
     ((length (g1 m) = 1 \<or> length (g1 m) = 2) \<and> list_all isDigit (g1 m)
      \<and> validG2 (g2 m) \<and> validG3 (g3 m))"

text \<open>The hour and the minute that \<^verbatim>\<open>normalizeTime\<close> reads from a match.\<close>

definition hourOf :: "tmatch \<Rightarrow> nat" where
  "hourOf m = parseInt (g1 m)"

definition minuteOf :: "tmatch \<Rightarrow> nat" where
  "minuteOf m = parseInt (case g2 m of None \<Rightarrow> str ''0'' | Some d \<Rightarrow> d)"

text \<open>The canonical string \<^verbatim>\<open>H:MM MERIDIEM\<close>.\<close>

definition canonical :: "nat \<Rightarrow> nat \<Rightarrow> jsstring \<Rightarrow> jsstring" where
  "canonical h mi mer = numToString h @ [COLON] @ padStart2 (numToString mi) @ [SP] @ mer"

text \<open>The hour on the 12-hour clock, and the meridiem that goes with a match.\<close>

definition hour12 :: "nat \<Rightarrow> nat" where
  "hour12 h = (if h = 0 then 12 else if h > 12 then h - 12 else h)"

definition meridiemOf :: "tmatch \<Rightarrow> jsstring" where
  "meridiemOf m =
     (if hourOf m > 12 then str ''PM''
      else case g3 m of
             None \<Rightarrow> if 7 \<le> hourOf m \<and> hourOf m \<le> 11 then str ''AM'' else str ''PM''
           | Some x \<Rightarrow> toUpperCase x)"

text \<open>
  The row of a line when the range step and the single time step work on the working
  text, that is on the line without its bracketed fragment, as the specification has it.
\<close>

definition rowOfWorkingText :: "jsstring \<Rightarrow> error + row" where
  "rowOfWorkingText line =
     (let (notes0, working) = durationStep line in
      case singleStep working (rangeStep working working) of
        Inl e \<Rightarrow> Inl e
      | Inr (time1, activity1) \<Rightarrow>
          let activity2 = cleanActivity activity1;
              activity3 = (if activity2 = [] then [EMDASH] else activity2)
          in Inr \<lparr>time = (if time1 = [] then [EMDASH] else time1),
                  activity = activity3, notes = notes0\<rparr>)"

text \<open>
  A time string of the 12-hour clock: an hour from 1 to \<open>hmax\<close> written without a leading
  zero, a colon, a minute of two digits that is at most \<open>mmax\<close>, a space, and AM or PM.
  \<open>isTime 12 59\<close> is the invariant of a time token.
\<close>

definition isTime :: "nat \<Rightarrow> nat \<Rightarrow> jsstring \<Rightarrow> bool" where
  "isTime hmax mmax t =
     (let hs = takeWhile isDigit t; h = parseInt hs in
      1 \<le> h \<and> h \<le> hmax \<and> hs = numToString h \<and>
      (case dropWhile isDigit t of
         c # a # b # s # mer \<Rightarrow>
           c = COLON \<and> isDigit a \<and> isDigit b \<and> parseInt [a, b] \<le> mmax \<and> s = SP
           \<and> (mer = str ''AM'' \<or> mer = str ''PM'')
       | _ \<Rightarrow> False))"

text \<open>The pieces of a string between the occurrences of one code unit.\<close>

fun splitOn :: "cu \<Rightarrow> jsstring \<Rightarrow> jsstring list" where
  "splitOn x [] = [[]]"
| "splitOn x (c # cs) =
     (if c = x then [] # splitOn x cs
      else (case splitOn x cs of [] \<Rightarrow> [[c]] | l # ls \<Rightarrow> (c # l) # ls))"

text \<open>
  A time field: the absence marker, one time, or two times with an en dash between them.
\<close>

definition timeField :: "nat \<Rightarrow> nat \<Rightarrow> jsstring \<Rightarrow> bool" where
  "timeField hmax mmax t =
     (case splitOn ENDASH t of
        [a] \<Rightarrow> a = [EMDASH] \<or> isTime hmax mmax a
      | [a, b] \<Rightarrow> isTime hmax mmax a \<and> isTime hmax mmax b
      | _ \<Rightarrow> False)"

text \<open>
  A well-formed table: its lines are the header row, the separator row and the body rows,
  and every body row has exactly three cells, each with a space on both sides of a
  content that is not empty. With no body row the text ends behind the separator row and
  its line feed.
\<close>

definition cellOK :: "jsstring \<Rightarrow> bool" where
  "cellOK c = (3 \<le> length c \<and> take 1 c = [SP] \<and> drop (length c - 1) c = [SP])"

definition wellFormedRow :: "jsstring \<Rightarrow> bool" where
  "wellFormedRow r =
     (case splitOn PIPE r of
        [a, t, act, n, z] \<Rightarrow> a = [] \<and> z = [] \<and> cellOK t \<and> cellOK act \<and> cellOK n
      | _ \<Rightarrow> False)"

definition bodyRows :: "jsstring \<Rightarrow> jsstring list" where
  "bodyRows out = (let ls = drop 2 (splitOn LF out) in if ls = [[]] then [] else ls)"


text \<open>The input lines that are not blank: some code unit of the line is not white space.\<close>

definition nonBlankLines :: "jsstring \<Rightarrow> jsstring list" where
  "nonBlankLines content = filter (\<lambda>l. \<not> list_all isSpace l) (splitLines content)"

text \<open>
  A bare number: one or two digits with no word character before or behind them. \<open>p\<close> is
  the code unit before the position, if any.
\<close>

fun bareNumberAt :: "cu option \<Rightarrow> jsstring \<Rightarrow> bool" where
  "bareNumberAt p [] = False"
| "bareNumberAt p [d1] = (\<not> wordBefore p \<and> isDigit d1)"
| "bareNumberAt p (d1 # d2 # r) =
     (\<not> wordBefore p \<and> isDigit d1 \<and> (\<not> isWordChar d2 \<or> (isDigit d2 \<and> \<not> wordAfter r)))"

fun hasBareNumberFrom :: "cu option \<Rightarrow> jsstring \<Rightarrow> bool" where
  "hasBareNumberFrom p [] = False"
| "hasBareNumberFrom p (c # cs) = (bareNumberAt p (c # cs) \<or> hasBareNumberFrom (Some c) cs)"

definition hasBareNumber :: "jsstring \<Rightarrow> bool" where
  "hasBareNumber line = hasBareNumberFrom None line"

text \<open>
  The bounds that a match sets for its normalized time: an hour of at most 24 ends on the
  12-hour clock, and a minute of at most 59 stays one; two digits allow hours up to 99,
  which lose 12, and minutes up to 99.
\<close>

definition hourBound :: "tmatch \<Rightarrow> nat" where
  "hourBound m = (if hourOf m \<le> 24 then 12 else 87)"

definition minuteBound :: "tmatch \<Rightarrow> nat" where
  "minuteBound m = (if minuteOf m \<le> 59 then 59 else 99)"


section \<open>Matches of the time pattern\<close>

lemma meridiemPrefix_valid: "meridiemPrefix r = Some mer \<Longrightarrow> validG3 (Some mer)"
  by (auto simp: meridiemPrefix_def validG3_def split: if_splits)

lemma matchMeridiem_valid: "matchMeridiem p r = Some (t, g) \<Longrightarrow> validG3 g"
  by (auto simp: matchMeridiem_def validG3_def meridiemPrefix_def split: option.splits if_splits)

lemma matchSpaces_valid: "matchSpaces k p r = Some (t, g) \<Longrightarrow> validG3 g"
  by (induction k arbitrary: t) (auto dest: matchMeridiem_valid split: option.splits)

lemma matchTail_valid: "matchTail p r = Some (t, g) \<Longrightarrow> validG3 g"
  unfolding matchTail_def by (rule matchSpaces_valid)

lemma matchNoMinutes_valid: "matchNoMinutes p r = Some (t, mi, g) \<Longrightarrow> validG2 mi \<and> validG3 g"
  by (auto simp: matchNoMinutes_def validG2_def dest: matchTail_valid split: option.splits)

lemma matchMinutes_valid: "matchMinutes p r = Some (t, mi, g) \<Longrightarrow> validG2 mi \<and> validG3 g"
  by (induction p r rule: matchMinutes.induct)
     (auto simp: validG2_def dest: matchTail_valid matchNoMinutes_valid
           split: option.splits if_splits)

lemma matchOneDigit_valid:
  "matchOneDigit d r = Some (ds, t, mi, g) \<Longrightarrow> ds = [d] \<and> validG2 mi \<and> validG3 g"
  by (auto simp: matchOneDigit_def dest: matchMinutes_valid split: option.splits)

lemma matchDigits_valid:
  "matchDigits r = Some (ds, t, mi, g) \<Longrightarrow>
     (length ds = 1 \<or> length ds = 2) \<and> list_all isDigit ds \<and> validG2 mi \<and> validG3 g"
  by (induction r rule: matchDigits.induct)
     (auto dest: matchMinutes_valid matchOneDigit_valid split: option.splits if_splits)

lemma searchTime_valid: "searchTime i p r = Some m \<Longrightarrow> validMatch m"
  by (induction i p r rule: searchTime.induct)
     (auto simp: matchTimeAt_def validMatch_def dest!: matchDigits_valid
           split: option.splits if_splits)

lemma matchTime_valid: "matchTime s = Some m \<Longrightarrow> validMatch m"
  unfolding matchTime_def by (rule searchTime_valid)

lemma str_AM: "str ''AM'' = [65, 77]"
  by (simp add: str_def)

lemma str_PM: "str ''PM'' = [80, 77]"
  by (simp add: str_def)

lemma str_am: "str ''am'' = [97, 109]"
  by (simp add: str_def)

lemma str_pm: "str ''pm'' = [112, 109]"
  by (simp add: str_def)

lemma str_0: "str ''0'' = [48]"
  by (simp add: str_def)

lemma numToString_1: "n < 10 \<Longrightarrow> numToString n = [48 + n]"
  by (simp add: numToString.simps)

lemma numToString_2: "10 \<le> n \<Longrightarrow> n < 100 \<Longrightarrow> numToString n = [48 + n div 10, 48 + n mod 10]"
  by (subst numToString.simps) (simp add: numToString_1)

lemma padStart2_num: "n < 100 \<Longrightarrow> padStart2 (numToString n) = [48 + n div 10, 48 + n mod 10]"
  by (cases "n < 10") (simp_all add: padStart2_def numToString_1 numToString_2)

lemma parseInt_1: "parseInt [d] = d - 48"
  by (simp add: parseInt_def)

lemma parseInt_2: "parseInt [d, e] = 10 * (d - 48) + (e - 48)"
  by (simp add: parseInt_def)

lemma isDigit_low: "n < 10 \<Longrightarrow> isDigit (48 + n)"
  by (simp add: isDigit_def)

lemma isDigit_div: "n < 100 \<Longrightarrow> isDigit (48 + n div 10)"
  by (simp add: isDigit_def)

lemma isDigit_mod: "isDigit (48 + n mod 10)"
  by (simp add: isDigit_def)

lemma matchTail_AM: "matchTail p [SP, 65, 77] = Some ([SP, 65, 77], Some [65, 77])"
  by (simp add: matchTail_def matchMeridiem_def meridiemPrefix_def str_AM str_PM str_am str_pm
      isSpace_def wordBoundary_def wordBefore_def wordAfter_def isWordChar_def isDigit_def)

lemma matchTail_PM: "matchTail p [SP, 80, 77] = Some ([SP, 80, 77], Some [80, 77])"
  by (simp add: matchTail_def matchMeridiem_def meridiemPrefix_def str_AM str_PM str_am str_pm
      isSpace_def wordBoundary_def wordBefore_def wordAfter_def isWordChar_def isDigit_def)

lemma matchTail_meridiem:
  "mer = str ''AM'' \<or> mer = str ''PM'' \<Longrightarrow> matchTail p (SP # mer) = Some (SP # mer, Some mer)"
  by (auto simp: str_AM str_PM matchTail_AM matchTail_PM)

lemma matchMinutes_canonical:
  assumes "isDigit a" "isDigit b" "mer = str ''AM'' \<or> mer = str ''PM''"
  shows "matchMinutes p (COLON # a # b # SP # mer) =
           Some (COLON # a # b # SP # mer, Some [a, b], Some mer)"
  using assms by (simp add: matchTail_meridiem)

lemma matchTime_canonical:
  assumes "1 \<le> h" "h < 100" "mi < 100" "mer = str ''AM'' \<or> mer = str ''PM''"
  shows "matchTime (canonical h mi mer) =
    Some \<lparr>index = 0, whole = canonical h mi mer, g1 = numToString h,
          g2 = Some (padStart2 (numToString mi)), g3 = Some mer\<rparr>"
proof (cases "h < 10")
  case True
  have nd: "\<not> isDigit COLON" by (simp add: isDigit_def)
  have wb: "wordBoundary None ((48 + h) # r)" for r
    using True by (simp add: wordBoundary_def wordBefore_def wordAfter_def isWordChar_def isDigit_low)
  show ?thesis using assms True
    by (simp add: canonical_def matchTime_def numToString_1 padStart2_num matchTimeAt_def
        wb isDigit_low nd matchOneDigit_def matchMinutes_canonical isDigit_div isDigit_mod
        del: matchMinutes.simps)
next
  case False
  have wb: "wordBoundary None ((48 + h div 10) # r)" for r
    using assms by (simp add: wordBoundary_def wordBefore_def wordAfter_def isWordChar_def isDigit_div)
  show ?thesis using assms False
    by (simp add: canonical_def matchTime_def numToString_2 padStart2_num matchTimeAt_def
        wb matchMinutes_canonical isDigit_div isDigit_mod del: matchMinutes.simps)
qed

lemma parseInt_numToString: "n < 100 \<Longrightarrow> parseInt (numToString n) = n"
  by (cases "n < 10") (simp_all add: numToString_1 numToString_2 parseInt_1 parseInt_2)

lemma parseInt_padStart2: "n < 100 \<Longrightarrow> parseInt (padStart2 (numToString n)) = n"
  by (simp add: padStart2_num parseInt_2)

lemma parseInt_bound1: "list_all isDigit ds \<Longrightarrow> length ds = 1 \<Longrightarrow> parseInt ds < 10"
  by (cases ds) (auto simp: parseInt_1 isDigit_def)

lemma parseInt_bound2: "list_all isDigit ds \<Longrightarrow> length ds = 2 \<Longrightarrow> parseInt ds < 100"
  by (cases ds; cases "tl ds") (auto simp: parseInt_2 isDigit_def)

lemma hourOf_bound: "validMatch m \<Longrightarrow> hourOf m < 100"
  using parseInt_bound1 [of "g1 m"] parseInt_bound2 [of "g1 m"]
  by (auto simp: validMatch_def hourOf_def)

lemma minuteOf_bound: "validMatch m \<Longrightarrow> minuteOf m < 100"
  using parseInt_bound2 [of "the (g2 m)"]
  by (auto simp: validMatch_def validG2_def minuteOf_def str_0 parseInt_1 split: option.splits)

lemma toUpperCase_meridiem:
  "toUpperCase (str ''am'') = str ''AM''" "toUpperCase (str ''pm'') = str ''PM''"
  "toUpperCase (str ''AM'') = str ''AM''" "toUpperCase (str ''PM'') = str ''PM''"
  by (simp_all add: toUpperCase_def str_def)

lemma meridiemOf_cases: "validMatch m \<Longrightarrow> meridiemOf m = str ''AM'' \<or> meridiemOf m = str ''PM''"
  by (auto simp: validMatch_def validG3_def meridiemOf_def toUpperCase_meridiem
           split: option.splits)

lemma normalizeTime_canonical:
  assumes "validMatch m"
  shows "normalizeTime (Some m) = Some (canonical (hour12 (hourOf m)) (minuteOf m) (meridiemOf m))"
proof -
  have ne: "toUpperCase x \<noteq> []" if "g3 m = Some x" for x
    using assms that by (auto simp: validMatch_def validG3_def toUpperCase_def str_def)
  show ?thesis
    by (auto simp: normalizeTime_def Let_def canonical_def hour12_def hourOf_def minuteOf_def
        meridiemOf_def toUpperCase_def ne str_AM str_PM dest: ne split: option.splits)
qed

lemma hour12_range: "h < 100 \<Longrightarrow> 1 \<le> hour12 h \<and> hour12 h \<le> 87"
  by (auto simp: hour12_def)

lemma hour12_small: "h \<le> 24 \<Longrightarrow> hour12 h \<le> 12"
  by (auto simp: hour12_def)

lemma renormalize_canonical:
  assumes "1 \<le> h" "h \<le> 12" "mi < 100" "mer = str ''AM'' \<or> mer = str ''PM''"
  shows "normalizeTime (matchTime (canonical h mi mer)) = Some (canonical h mi mer)"
proof -
  let ?m = "\<lparr>index = 0, whole = canonical h mi mer, g1 = numToString h,
          g2 = Some (padStart2 (numToString mi)), g3 = Some mer\<rparr>"
  have m: "matchTime (canonical h mi mer) = Some ?m"
    using assms by (intro matchTime_canonical) auto
  have v: "validMatch ?m"
    using matchTime_valid [OF m] .
  have h: "hourOf ?m = h" using assms by (simp add: hourOf_def parseInt_numToString)
  have mi: "minuteOf ?m = mi" using assms by (simp add: minuteOf_def parseInt_padStart2)
  have mer: "meridiemOf ?m = mer"
    using assms h by (auto simp: meridiemOf_def toUpperCase_meridiem)
  have "hour12 h = h" using assms by (simp add: hour12_def)
  then show ?thesis
    using normalizeTime_canonical [OF v] by (simp add: m h mi mer)
qed

lemma isTime_canonical:
  assumes "1 \<le> h" "h \<le> hmax" "h < 100" "mi \<le> mmax" "mi < 100"
    and "mer = str ''AM'' \<or> mer = str ''PM''"
  shows "isTime hmax mmax (canonical h mi mer)"
proof -
  have nd: "\<not> isDigit COLON" by (simp add: isDigit_def)
  have "mi div 10 < 10" using assms by simp
  then have p: "10 * (mi div 10) + mi mod 10 \<le> mmax" using assms by simp
  show ?thesis
  proof (cases "h < 10")
    case True
    then show ?thesis using assms p
      by (simp add: isTime_def canonical_def numToString_1 padStart2_num isDigit_low nd
          parseInt_1 parseInt_2 isDigit_div isDigit_mod Let_def)
  next
    case False
    then show ?thesis using assms p
      by (simp add: isTime_def canonical_def numToString_2 padStart2_num isDigit_div
          isDigit_mod nd parseInt_2 Let_def)
  qed
qed

section \<open>Where the code units of a row come from\<close>

lemma set_trim: "set (trim s) \<subseteq> set s"
  by (auto simp: trim_def dest!: set_dropWhileD)

lemma set_removeFirst: "set (removeFirst pat s) \<subseteq> set s"
  by (induction s) (auto dest: in_set_dropD)

lemma set_removeFillerFrom: "set (removeFillerFrom p s) \<subseteq> set s"
  by (induction p s rule: removeFillerFrom.induct) (auto split: option.splits dest: in_set_dropD)

lemma set_removeFiller: "set (removeFiller s) \<subseteq> set s"
  by (simp add: removeFiller_def set_removeFillerFrom)

lemma set_removeTime: "set (removeTime s) \<subseteq> set s"
  by (auto simp: removeTime_def split: option.splits dest: in_set_takeD in_set_dropD)

lemma set_stripLeadingDashes: "set (stripLeadingDashes s) \<subseteq> set s"
  by (auto simp: stripLeadingDashes_def split: list.splits if_splits dest!: set_dropWhileD)

lemma set_collapseSpaces: "set (collapseSpaces s) \<subseteq> insert SP (set s)"
  by (induction s rule: collapseSpaces.induct) (auto dest!: set_dropWhileD)

lemma set_removeBangs: "set (removeBangs s) \<subseteq> set s"
  by (auto simp: removeBangs_def)

lemma set_stripTrailingDash: "set (stripTrailingDash s) \<subseteq> set s"
  by (induction s) auto

lemma set_cleanActivity: "set (cleanActivity a) \<subseteq> insert SP (set a)"
proof -
  have "set (cleanActivity a) \<subseteq> set (collapseSpaces (stripLeadingDashes a))"
    unfolding cleanActivity_def
    using set_trim set_stripTrailingDash set_removeBangs by (meson subset_trans)
  also have "\<dots> \<subseteq> insert SP (set (stripLeadingDashes a))"
    by (rule set_collapseSpaces)
  also have "\<dots> \<subseteq> insert SP (set a)"
    using set_stripLeadingDashes by auto
  finally show ?thesis .
qed

lemma bracketInner_set: "bracketInner cs = Some inner \<Longrightarrow> set inner \<subseteq> set cs"
  by (induction cs arbitrary: inner) (auto split: if_splits option.splits)

lemma matchDuration_set: "matchDuration s = Some (m0, m1) \<Longrightarrow> set m1 \<subseteq> set s"
  by (induction s) (auto split: if_splits option.splits dest!: bracketInner_set)

lemma durationStep_set: "durationStep line = (n, a) \<Longrightarrow> set n \<subseteq> set line \<and> set a \<subseteq> set line"
  using set_trim set_removeFirst
  by (auto simp: durationStep_def split: option.splits dest!: matchDuration_set) blast+

lemma splitRangeFrom_set:
  "part \<in> set (splitRangeFrom cur p r) \<Longrightarrow> set part \<subseteq> set cur \<union> set r"
proof (induction cur p r arbitrary: part rule: splitRangeFrom.induct)
  case (1 cur p)
  then show ?case by simp
next
  case (2 cur p c cs)
  show ?case
  proof (cases "matchRangeWordAt p (c # cs)")
    case None
    with 2 show ?thesis by auto
  next
    case (Some n)
    have "set (drop (n - 1) cs) \<subseteq> set cs"
      by (rule set_drop_subset)
    with 2 Some show ?thesis by fastforce
  qed
qed

lemma splitRange_set: "part \<in> set (splitRange line) \<Longrightarrow> set part \<subseteq> set line"
  using splitRangeFrom_set [of part "[]" None line] by (simp add: splitRange_def)

lemma isTime_units:
  assumes "isTime hmax mmax t" and "x \<in> set t"
  shows "isDigit x \<or> x = COLON \<or> x = SP \<or> x = 65 \<or> x = 77 \<or> x = 80"
proof -
  have "x \<in> set (takeWhile isDigit t) \<or> x \<in> set (dropWhile isDigit t)"
    using assms(2) by (metis Un_iff set_append takeWhile_dropWhile_id)
  then show ?thesis
  proof
    assume "x \<in> set (takeWhile isDigit t)"
    then show ?thesis by (auto dest: set_takeWhileD)
  next
    assume "x \<in> set (dropWhile isDigit t)"
    then show ?thesis using assms(1)
      by (auto simp: isTime_def Let_def str_AM str_PM split: list.splits)
  qed
qed

lemma isTime_not_empty: "isTime hmax mmax t \<Longrightarrow> t \<noteq> []"
  by (auto simp: isTime_def Let_def)

section \<open>The steps of a row\<close>

lemma normalizeTime_isTime:
  assumes "matchTime s = Some m"
  shows "\<exists>t. normalizeTime (matchTime s) = Some t \<and> isTime 87 99 t
           \<and> (hourOf m \<le> 24 \<longrightarrow> minuteOf m \<le> 59 \<longrightarrow> isTime 12 59 t)"
proof -
  have v: "validMatch m"
    using assms by (rule matchTime_valid)
  let ?t = "canonical (hour12 (hourOf m)) (minuteOf m) (meridiemOf m)"
  have h: "1 \<le> hour12 (hourOf m)" "hour12 (hourOf m) \<le> 87"
    using hour12_range [OF hourOf_bound [OF v]] by simp_all
  have mi: "minuteOf m < 100"
    using v by (rule minuteOf_bound)
  have mer: "meridiemOf m = str ''AM'' \<or> meridiemOf m = str ''PM''"
    using v by (rule meridiemOf_cases)
  have "isTime 87 99 ?t"
    using h mi mer by (intro isTime_canonical) simp_all
  moreover have "isTime 12 59 ?t" if "hourOf m \<le> 24" "minuteOf m \<le> 59"
    using h mi mer that hour12_small [of "hourOf m"] by (intro isTime_canonical) simp_all
  moreover have "normalizeTime (matchTime s) = Some ?t"
    using normalizeTime_canonical [OF v] assms by simp
  ultimately show ?thesis by blast
qed

lemma normalizeTime_isTime_bounds:
  assumes "matchTime s = Some m" and "hour12 (hourOf m) \<le> hmax" and "minuteOf m \<le> mmax"
  shows "\<exists>t. normalizeTime (matchTime s) = Some t \<and> isTime hmax mmax t"
proof -
  have v: "validMatch m"
    using assms(1) by (rule matchTime_valid)
  let ?t = "canonical (hour12 (hourOf m)) (minuteOf m) (meridiemOf m)"
  have "isTime hmax mmax ?t"
    using hour12_range [OF hourOf_bound [OF v]] minuteOf_bound [OF v] meridiemOf_cases [OF v]
      assms(2,3)
    by (intro isTime_canonical) simp_all
  moreover have "normalizeTime (matchTime s) = Some ?t"
    using normalizeTime_canonical [OF v] assms(1) by simp
  ultimately show ?thesis by blast
qed

lemma hour12_bound: "validMatch m \<Longrightarrow> hour12 (hourOf m) \<le> 87"
  using hour12_range [OF hourOf_bound] by simp

lemma minuteOf_le: "validMatch m \<Longrightarrow> minuteOf m \<le> 99"
  using minuteOf_bound [of m] by simp

lemma normalizeTime_None: "normalizeTime None = None"
  by (simp add: normalizeTime_def)

lemma truthy_normalizeTime: "truthy (normalizeTime (matchTime s)) \<longleftrightarrow> matchTime s \<noteq> None"
proof (cases "matchTime s")
  case None
  then show ?thesis by (simp add: normalizeTime_None truthy_def)
next
  case (Some m)
  from normalizeTime_isTime [OF Some] obtain t
    where "normalizeTime (matchTime s) = Some t" "isTime 87 99 t" by blast
  then show ?thesis using Some by (auto simp: truthy_def dest: isTime_not_empty)
qed

lemma rangeStep_cases:
  assumes "rangeStep line a0 = (t, a)"
  shows "(t = [] \<and> a = a0)
    \<or> (\<exists>part0 part1 t0 t1. splitRange line = [part0, part1] \<and> matchTime part0 \<noteq> None
          \<and> isTime 87 99 t0 \<and> isTime 87 99 t1 \<and> t = t0 @ [ENDASH] @ t1
          \<and> a = trim (removeTime part0))"
proof (cases "t = []")
  case True
  then show ?thesis using assms
    by (auto simp: rangeStep_def Let_def split: if_splits list.splits)
next
  case False
  then obtain part0 part1 where sp: "splitRange line = [part0, part1]"
    and tr: "truthy (normalizeTime (matchTime part0))" "truthy (normalizeTime (matchTime part1))"
    and t: "t = orEmpty (normalizeTime (matchTime part0)) @ [ENDASH]
                  @ orEmpty (normalizeTime (matchTime part1))"
    and a: "a = trim (removeTime part0)"
    using assms by (auto simp: rangeStep_def Let_def split: if_splits list.splits)
  from tr obtain m0 m1 where m: "matchTime part0 = Some m0" "matchTime part1 = Some m1"
    by (auto simp: truthy_normalizeTime)
  from normalizeTime_isTime [OF m(1)] obtain t0
    where t0: "normalizeTime (matchTime part0) = Some t0" "isTime 87 99 t0" by blast
  from normalizeTime_isTime [OF m(2)] obtain t1
    where t1: "normalizeTime (matchTime part1) = Some t1" "isTime 87 99 t1" by blast
  have "t = t0 @ [ENDASH] @ t1"
    using t t0 t1 by (simp add: orEmpty_def)
  with sp m t0 t1 a show ?thesis by auto
qed

lemma singleStep_None: "matchTime line = None \<Longrightarrow> singleStep line ta = Inr ta"
  by (simp add: singleStep_def Let_def normalizeTime_None truthy_def)

lemma singleStep_range: "fst ta \<noteq> [] \<Longrightarrow> singleStep line ta = Inr ta"
  by (simp add: singleStep_def)

lemma singleStep_Some:
  assumes "matchTime line = Some m" and "fst ta = []"
  shows "\<exists>t. singleStep line ta = Inr (t, trim (removeFiller (removeFirst (whole m) line)))
            \<and> normalizeTime (matchTime line) = Some t \<and> isTime 87 99 t"
proof -
  from normalizeTime_isTime [OF assms(1)] obtain t
    where t: "normalizeTime (matchTime line) = Some t" "isTime 87 99 t" by blast
  have "truthy (normalizeTime (matchTime line))"
    unfolding truthy_normalizeTime using assms(1) by simp
  then have "singleStep line ta = Inr (t, trim (removeFiller (removeFirst (whole m) line)))"
    using assms t by (simp add: singleStep_def Let_def orEmpty_def)
  with t show ?thesis by blast
qed

lemma steps_cases:
  obtains (absent) "singleStep line (rangeStep line act) = Inr ([], act)" "matchTime line = None"
  | (single) m t where "matchTime line = Some m" "isTime 87 99 t"
      "normalizeTime (matchTime line) = Some t"
      "singleStep line (rangeStep line act)
         = Inr (t, trim (removeFiller (removeFirst (whole m) line)))"
  | (range) part0 part1 t0 t1 where "splitRange line = [part0, part1]"
      "matchTime part0 \<noteq> None" "isTime 87 99 t0" "isTime 87 99 t1"
      "singleStep line (rangeStep line act) = Inr (t0 @ [ENDASH] @ t1, trim (removeTime part0))"
proof -
  obtain t a where ra: "rangeStep line act = (t, a)"
    by (cases "rangeStep line act") auto
  from rangeStep_cases [OF ra] show thesis
  proof (elim disjE exE conjE)
    assume e: "t = []" "a = act"
    show thesis
    proof (cases "matchTime line")
      case None
      then show thesis using absent ra e by (simp add: singleStep_None)
    next
      case (Some m)
      from singleStep_Some [OF Some, of "([], act)"] show thesis
        using single Some ra e by auto
    qed
  next
    fix part0 part1 t0 t1
    assume "splitRange line = [part0, part1]" "matchTime part0 \<noteq> None"
      "isTime 87 99 t0" "isTime 87 99 t1" "t = t0 @ [ENDASH] @ t1" "a = trim (removeTime part0)"
    then show thesis using range ra by (simp add: singleStep_range)
  qed
qed

section \<open>Rows and tables\<close>

lemma splitOn_not_Nil: "splitOn x s \<noteq> []"
  by (induction s) (auto split: list.splits)

lemma splitOn_notin: "x \<notin> set a \<Longrightarrow> splitOn x a = [a]"
  by (induction a) auto

lemma splitOn_append: "x \<notin> set a \<Longrightarrow> splitOn x (a @ x # b) = a # splitOn x b"
  by (induction a) (auto split: list.splits simp: splitOn_not_Nil)

lemma splitOn_covers: "x \<in> set s \<Longrightarrow> x = y \<or> (\<exists>p \<in> set (splitOn y s). x \<in> set p)"
proof (induction s)
  case Nil
  then show ?case by simp
next
  case (Cons c cs)
  obtain l ls where l: "splitOn y cs = l # ls"
    by (cases "splitOn y cs") (simp_all add: splitOn_not_Nil)
  show ?case
  proof (cases "c = y")
    case True
    with Cons show ?thesis by auto
  next
    case False
    with Cons l show ?thesis by auto
  qed
qed

lemma isTime_no_dash: "isTime hmax mmax t \<Longrightarrow> ENDASH \<notin> set t \<and> EMDASH \<notin> set t"
  by (auto dest: isTime_units simp: isDigit_def)

lemma timeField_absent: "timeField hmax mmax [EMDASH]"
  by (simp add: timeField_def)

lemma timeField_single: "isTime hmax mmax t \<Longrightarrow> timeField hmax mmax t"
  using isTime_no_dash [of hmax mmax t] by (simp add: timeField_def splitOn_notin)

lemma timeField_range:
  assumes "isTime hmax mmax t0" and "isTime hmax mmax t1"
  shows "timeField hmax mmax (t0 @ [ENDASH] @ t1)"
  using assms isTime_no_dash [of hmax mmax t0] isTime_no_dash [of hmax mmax t1]
  by (simp add: timeField_def splitOn_append splitOn_notin)

lemma rowOfLine_eq:
  "rowOfLine line =
     (case singleStep line (rangeStep line (snd (durationStep line))) of
        Inl e \<Rightarrow> Inl e
      | Inr (t, a) \<Rightarrow>
          Inr \<lparr>time = (if t = [] then [EMDASH] else t),
                activity = (if cleanActivity a = [] then [EMDASH] else cleanActivity a),
                notes = fst (durationStep line)\<rparr>)"
  by (simp add: rowOfLine_def Let_def split: prod.splits sum.splits)

lemma set_part0:
  assumes "splitRange line = [part0, part1]"
  shows "set (trim (removeTime part0)) \<subseteq> set line"
proof -
  have "set part0 \<subseteq> set line"
    using splitRange_set [of part0 line] assms by simp
  then show ?thesis
    using set_trim [of "removeTime part0"] set_removeTime [of part0] by blast
qed

lemma set_single: "set (trim (removeFiller (removeFirst w line))) \<subseteq> set line"
  using set_trim [of "removeFiller (removeFirst w line)"] set_removeFiller [of "removeFirst w line"]
    set_removeFirst [of w line]
  by blast

lemma rowOfLine_row:
  "\<exists>t a. rowOfLine line
            = Inr \<lparr>time = t,
                   activity = (if cleanActivity a = [] then [EMDASH] else cleanActivity a),
                   notes = fst (durationStep line)\<rparr>
     \<and> set a \<subseteq> set line
     \<and> ((t = [EMDASH] \<and> matchTime line = None)
        \<or> (isTime 87 99 t \<and> normalizeTime (matchTime line) = Some t \<and> matchTime line \<noteq> None)
        \<or> (\<exists>part0 part1 t0 t1. splitRange line = [part0, part1] \<and> matchTime part0 \<noteq> None
              \<and> isTime 87 99 t0 \<and> isTime 87 99 t1 \<and> t = t0 @ [ENDASH] @ t1))"
proof (cases rule: steps_cases [where line = line and act = "snd (durationStep line)"])
  case absent
  let ?a = "snd (durationStep line)"
  have "set ?a \<subseteq> set line"
    using durationStep_set [of line] by (cases "durationStep line") simp
  moreover have "rowOfLine line
      = Inr \<lparr>time = [EMDASH],
             activity = (if cleanActivity ?a = [] then [EMDASH] else cleanActivity ?a),
             notes = fst (durationStep line)\<rparr>"
    using absent by (simp add: rowOfLine_eq)
  ultimately show ?thesis
    using absent(2) by blast
next
  case (single m t)
  let ?a = "trim (removeFiller (removeFirst (whole m) line))"
  have "set ?a \<subseteq> set line"
    by (rule set_single)
  moreover have "rowOfLine line
      = Inr \<lparr>time = t,
             activity = (if cleanActivity ?a = [] then [EMDASH] else cleanActivity ?a),
             notes = fst (durationStep line)\<rparr>"
    using single isTime_not_empty [of 87 99 t] by (simp add: rowOfLine_eq)
  moreover have "matchTime line \<noteq> None"
    using single(1) by simp
  ultimately show ?thesis
    using single(2,3) by blast
next
  case (range part0 part1 t0 t1)
  let ?a = "trim (removeTime part0)"
  have "set ?a \<subseteq> set line"
    using range(1) by (rule set_part0)
  moreover have "rowOfLine line
      = Inr \<lparr>time = t0 @ [ENDASH] @ t1,
             activity = (if cleanActivity ?a = [] then [EMDASH] else cleanActivity ?a),
             notes = fst (durationStep line)\<rparr>"
    using range by (simp add: rowOfLine_eq)
  ultimately show ?thesis
    using range(1-4) by blast
qed

lemma rowOfLine_total: "\<exists>r. rowOfLine line = Inr r"
  using rowOfLine_row [of line] by blast

lemma rowOfLine_timeField:
  assumes "rowOfLine line = Inr r"
  shows "timeField 87 99 (time r)"
proof -
  from rowOfLine_row [of line] assms
  have "time r = [EMDASH] \<or> isTime 87 99 (time r)
          \<or> (\<exists>t0 t1. isTime 87 99 t0 \<and> isTime 87 99 t1 \<and> time r = t0 @ [ENDASH] @ t1)"
    by auto
  then show ?thesis
    using timeField_absent timeField_single timeField_range by metis
qed

lemma timeField_units:
  assumes "timeField hmax mmax t" and "x \<in> set t"
  shows "isDigit x \<or> x = COLON \<or> x = SP \<or> x = 65 \<or> x = 77 \<or> x = 80 \<or> x = ENDASH \<or> x = EMDASH"
proof -
  have "x = ENDASH \<or> (\<exists>p \<in> set (splitOn ENDASH t). x \<in> set p)"
    using assms(2) by (rule splitOn_covers)
  then show ?thesis
  proof
    assume "x = ENDASH"
    then show ?thesis by simp
  next
    assume "\<exists>p \<in> set (splitOn ENDASH t). x \<in> set p"
    then obtain p where p: "p \<in> set (splitOn ENDASH t)" "x \<in> set p" by blast
    then have "p = [EMDASH] \<or> isTime hmax mmax p"
      using assms(1) by (auto simp: timeField_def split: list.splits)
    then show ?thesis using p(2) isTime_units [of hmax mmax p x] by auto
  qed
qed

lemma timeField_not_empty: "timeField hmax mmax t \<Longrightarrow> t \<noteq> []"
  by (auto simp: timeField_def dest: isTime_not_empty)

lemma rowOfLine_activity:
  assumes "rowOfLine line = Inr r"
  shows "activity r \<noteq> [] \<and> set (activity r) \<subseteq> insert SP (insert EMDASH (set line))"
proof -
  from rowOfLine_row [of line] assms obtain a
    where a: "activity r = (if cleanActivity a = [] then [EMDASH] else cleanActivity a)"
      "set a \<subseteq> set line"
    by auto
  have "set (cleanActivity a) \<subseteq> insert SP (set line)"
    using set_cleanActivity [of a] a(2) by auto
  with a(1) show ?thesis by auto
qed

lemma rowOfLine_notes: "rowOfLine line = Inr r \<Longrightarrow> set (notes r) \<subseteq> set line"
  using rowOfLine_row [of line] durationStep_set [of line]
  by (cases "durationStep line") auto

lemma rowsOf_total: "\<exists>rs. rowsOf ls = Inr rs \<and> list_all2 (\<lambda>l r. rowOfLine l = Inr r) ls rs"
proof (induction ls)
  case Nil
  then show ?case by simp
next
  case (Cons l ls)
  then obtain rs where rs: "rowsOf ls = Inr rs" "list_all2 (\<lambda>l r. rowOfLine l = Inr r) ls rs"
    by blast
  obtain r where r: "rowOfLine l = Inr r"
    using rowOfLine_total by blast
  have "rowsOf (l # ls) = Inr (r # rs)"
    using r rs(1) by simp
  with r rs(2) show ?case by simp
qed

lemma splitLinesFrom_set: "l \<in> set (splitLinesFrom cur r) \<Longrightarrow> set l \<subseteq> set cur \<union> set r"
proof (induction cur r arbitrary: l rule: splitLinesFrom.induct)
  case (1 cur)
  then show ?case by simp
next
  case (2 cur c cs)
  have "set (drop 1 cs) \<subseteq> set cs"
    by (rule set_drop_subset)
  with 2 show ?case
    by (fastforce split: if_splits)
qed

lemma splitLinesFrom_no_LF:
  "l \<in> set (splitLinesFrom cur r) \<Longrightarrow> LF \<notin> set cur \<Longrightarrow> LF \<notin> set l"
  by (induction cur r arbitrary: l rule: splitLinesFrom.induct) (auto split: if_splits)

lemma linesOf_line:
  assumes "l \<in> set (linesOf content)"
  shows "set l \<subseteq> set content \<and> LF \<notin> set l"
proof -
  from assms obtain l0 where l0: "l0 \<in> set (splitLines content)" "l = trim l0"
    by (auto simp: linesOf_def)
  have "set l0 \<subseteq> set content" "LF \<notin> set l0"
    using l0(1) splitLinesFrom_set [of l0 "[]" content] splitLinesFrom_no_LF [of l0 "[]" content]
    by (simp_all add: splitLines_def)
  then show ?thesis
    using set_trim [of l0] l0(2) by auto
qed

lemma trim_empty_iff: "trim l = [] \<longleftrightarrow> list_all isSpace l"
proof
  assume "list_all isSpace l"
  then show "trim l = []"
    by (auto simp: trim_def list_all_iff dest: set_dropWhileD)
next
  assume "trim l = []"
  then have a: "\<forall>x \<in> set (dropWhile isSpace l). isSpace x"
    by (simp add: trim_def dropWhile_eq_Nil_conv)
  have "dropWhile isSpace l = []"
  proof (rule ccontr)
    assume n: "dropWhile isSpace l \<noteq> []"
    then have "\<not> isSpace (hd (dropWhile isSpace l))"
      by (rule hd_dropWhile)
    moreover have "hd (dropWhile isSpace l) \<in> set (dropWhile isSpace l)"
      using n by simp
    ultimately show False using a by blast
  qed
  then show "list_all isSpace l"
    by (simp add: list_all_iff dropWhile_eq_Nil_conv)
qed

lemma length_linesOf: "length (linesOf content) = length (nonBlankLines content)"
proof -
  have "length (filter (\<lambda>l. l \<noteq> []) (map trim ls)) = length (filter (\<lambda>l. \<not> list_all isSpace l) ls)"
    for ls
    by (induction ls) (simp_all add: trim_empty_iff)
  then show ?thesis
    by (simp add: linesOf_def nonBlankLines_def)
qed

lemma renderRow_eq:
  "renderRow r = [PIPE, SP] @ time r @ [SP, PIPE, SP] @ activity r @ [SP, PIPE, SP]
                   @ (if notes r = [] then [DASH] else notes r) @ [SP, PIPE]"
  by (simp add: renderRow_def str_def)

lemma renderRow_no_LF:
  "LF \<notin> set (time r) \<Longrightarrow> LF \<notin> set (activity r) \<Longrightarrow> LF \<notin> set (notes r)
     \<Longrightarrow> LF \<notin> set (renderRow r)"
  by (simp add: renderRow_eq)

lemma renderRow_not_empty: "renderRow r \<noteq> []"
  by (simp add: renderRow_eq)

lemma cellOK_padded: "t \<noteq> [] \<Longrightarrow> cellOK (SP # t @ [SP])"
  by (cases t) (simp_all add: cellOK_def)

lemma renderRow_wellFormed:
  assumes "PIPE \<notin> set (time r)" "PIPE \<notin> set (activity r)" "PIPE \<notin> set (notes r)"
    and "time r \<noteq> []" "activity r \<noteq> []"
  shows "wellFormedRow (renderRow r)"
proof -
  let ?n = "if notes r = [] then [DASH] else notes r"
  have n: "PIPE \<notin> set ?n" "?n \<noteq> []"
    using assms(3) by auto
  have e: "renderRow r = [] @ PIPE # (SP # time r @ [SP]) @ PIPE # (SP # activity r @ [SP])
                           @ PIPE # (SP # ?n @ [SP]) @ PIPE # []"
    by (simp add: renderRow_eq)
  have "splitOn PIPE (renderRow r)
          = [[], SP # time r @ [SP], SP # activity r @ [SP], SP # ?n @ [SP], []]"
    unfolding e using assms(1,2) n(1)
    by (subst splitOn_append, simp)+ simp
  then show ?thesis
    using assms(4,5) n(2) by (simp add: wellFormedRow_def cellOK_padded)
qed

lemma row_clean:
  assumes "rowOfLine l = Inr r" and "x \<notin> set l" and "x = LF \<or> x = PIPE"
  shows "x \<notin> set (time r) \<and> x \<notin> set (activity r) \<and> x \<notin> set (notes r)"
proof -
  have "x \<notin> set (time r)"
    using timeField_units [OF rowOfLine_timeField [OF assms(1)], of x] assms(3)
    by (auto simp: isDigit_def)
  moreover have "x \<notin> set (activity r)"
    using rowOfLine_activity [OF assms(1)] assms(2,3) by auto
  moreover have "x \<notin> set (notes r)"
    using rowOfLine_notes [OF assms(1)] assms(2) by auto
  ultimately show ?thesis by simp
qed

lemma splitOn_joinLines:
  "rs \<noteq> [] \<Longrightarrow> \<forall>r \<in> set rs. LF \<notin> set r \<Longrightarrow> splitOn LF (joinLines rs) = rs"
  by (induction rs rule: joinLines.induct) (simp_all add: splitOn_notin splitOn_append)

lemma header_no_LF: "LF \<notin> set header"
  by (simp add: header_def str_def)

lemma sep_no_LF: "LF \<notin> set sep"
  by (simp add: sep_def str_def)

lemma table_lines:
  assumes "\<forall>r \<in> set rs. LF \<notin> set r"
  shows "splitOn LF (header @ [LF] @ sep @ [LF] @ joinLines rs)
           = header # sep # (if rs = [] then [[]] else rs)"
proof -
  have "splitOn LF (joinLines rs) = (if rs = [] then [[]] else rs)"
    using assms by (simp add: splitOn_joinLines)
  then show ?thesis
    using header_no_LF sep_no_LF by (simp add: splitOn_append)
qed

lemma bodyRows_table:
  assumes "\<forall>r \<in> set rs. LF \<notin> set r \<and> r \<noteq> []"
  shows "bodyRows (header @ [LF] @ sep @ [LF] @ joinLines rs) = rs"
proof -
  have "rs \<noteq> [[]]"
    using assms by auto
  then show ?thesis
    using table_lines [of rs] assms by (simp add: bodyRows_def)
qed

lemma rows_of_lines:
  assumes "list_all2 (\<lambda>l r. rowOfLine l = Inr r) (linesOf content) rows"
  shows "\<forall>r \<in> set rows. time r \<noteq> [] \<and> activity r \<noteq> [] \<and> LF \<notin> set (renderRow r)
           \<and> (PIPE \<notin> set content \<longrightarrow> wellFormedRow (renderRow r))"
proof
  fix r
  assume "r \<in> set rows"
  then obtain i where i: "i < length rows" "rows ! i = r"
    by (auto simp: in_set_conv_nth)
  have len: "length (linesOf content) = length rows"
    using assms by (rule list_all2_lengthD)
  define l where "l = linesOf content ! i"
  have l: "l \<in> set (linesOf content)" "rowOfLine l = Inr r"
    using i len list_all2_nthD2 [OF assms i(1)] by (simp_all add: l_def)
  have ne: "time r \<noteq> []" "activity r \<noteq> []"
    using timeField_not_empty [OF rowOfLine_timeField [OF l(2)]] rowOfLine_activity [OF l(2)]
    by simp_all
  have lf: "LF \<notin> set (renderRow r)"
    using row_clean [OF l(2), of LF] linesOf_line [OF l(1)] by (simp add: renderRow_no_LF)
  have "wellFormedRow (renderRow r)" if "PIPE \<notin> set content"
  proof -
    have "PIPE \<notin> set l"
      using that linesOf_line [OF l(1)] by auto
    then show ?thesis
      using row_clean [OF l(2), of PIPE] ne by (simp add: renderRow_wellFormed)
  qed
  with ne lf show "time r \<noteq> [] \<and> activity r \<noteq> [] \<and> LF \<notin> set (renderRow r)
           \<and> (PIPE \<notin> set content \<longrightarrow> wellFormedRow (renderRow r))"
    by simp
qed

section \<open>A match in a piece of the line is a match in the line\<close>

lemma isSpace_not_word: "isSpace c \<Longrightarrow> \<not> isWordChar c"
  by (auto simp: isSpace_def isWordChar_def isDigit_def)

lemma isDigit_word: "isDigit c \<Longrightarrow> isWordChar c"
  by (simp add: isWordChar_def)

lemma wordBoundary_append: "u \<noteq> [] \<Longrightarrow> wordBoundary p (u @ v) = wordBoundary p u"
  by (cases u) (simp_all add: wordBoundary_def wordAfter_def)

lemma matchMeridiem_fallback: "wordBoundary p r \<Longrightarrow> matchMeridiem p r \<noteq> None"
  by (simp add: matchMeridiem_def split: option.splits)

lemma meridiemPrefix_cases:
  "meridiemPrefix r = Some mer \<Longrightarrow>
     take 2 r = mer \<and> (mer = [97, 109] \<or> mer = [112, 109] \<or> mer = [65, 77] \<or> mer = [80, 77])"
  by (auto simp: meridiemPrefix_def str_am str_pm str_AM str_PM split: if_splits)

lemma meridiemPrefix_word:
  assumes "meridiemPrefix r = Some mer"
  shows "take 2 r = mer \<and> length mer = 2 \<and> isWordChar (last mer)"
  using meridiemPrefix_cases [OF assms] by (auto simp: isWordChar_def)

lemma matchMeridiem_extend:
  assumes "matchMeridiem p u \<noteq> None"
    and "\<not> wordBefore (if u = [] then p else Some (last u))"
  shows "matchMeridiem p (u @ v) \<noteq> None"
proof (cases "wordBoundary p u")
  case True
  have "u \<noteq> []"
    using True assms(2) by (auto simp: wordBoundary_def wordAfter_def)
  then have "wordBoundary p (u @ v)"
    using True by (simp add: wordBoundary_append)
  then show ?thesis by (rule matchMeridiem_fallback)
next
  case False
  then obtain mer where mer: "meridiemPrefix u = Some mer"
    "wordBoundary (Some (last mer)) (drop 2 u)"
    using assms(1) by (auto simp: matchMeridiem_def split: option.splits if_splits)
  note w = meridiemPrefix_word [OF mer(1)]
  have "length (take 2 u) = 2"
    using w by simp
  then have len: "2 \<le> length u"
    by simp
  have "drop 2 u \<noteq> []"
  proof
    assume "drop 2 u = []"
    then have "u = mer" using w by (metis append_Nil2 append_take_drop_id)
    moreover have "mer \<noteq> []" using w by auto
    ultimately show False using w assms(2) by (simp add: wordBefore_def)
  qed
  then have b: "wordBoundary (Some (last mer)) (drop 2 u @ v)"
    using mer(2) by (simp add: wordBoundary_append)
  have tk: "take 2 (u @ v) = take 2 u"
    using len by simp
  have "meridiemPrefix (u @ v) = meridiemPrefix u"
    by (simp only: meridiemPrefix_def tk)
  then have "meridiemPrefix (u @ v) = Some mer"
    using mer(1) by simp
  then show ?thesis
    using b len by (simp add: matchMeridiem_def)
qed

lemma matchSpaces_more: "matchSpaces k p r \<noteq> None \<Longrightarrow> k \<le> k' \<Longrightarrow> matchSpaces k' p r \<noteq> None"
proof (induction k')
  case 0
  then show ?case by simp
next
  case (Suc j)
  show ?case
  proof (cases "k = Suc j")
    case True
    with Suc show ?thesis by simp
  next
    case False
    with Suc have "matchSpaces j p r \<noteq> None" by simp
    then show ?thesis by (auto split: option.splits)
  qed
qed

lemma matchSpaces_extend:
  assumes "matchSpaces k p u \<noteq> None" and "k \<le> length (takeWhile isSpace u)"
    and "\<not> wordBefore (if u = [] then p else Some (last u))"
  shows "matchSpaces k p (u @ v) \<noteq> None"
  using assms
proof (induction k)
  case 0
  then show ?case by (simp add: matchMeridiem_extend)
next
  case (Suc k)
  have k: "k < length u"
    using Suc.prems(2) length_takeWhile_le [of isSpace u] by simp
  have sp: "isSpace (u ! k)"
    using Suc.prems(2) by (metis Suc_le_lessD nth_mem set_takeWhileD takeWhile_nth)
  show ?case
  proof (cases "matchMeridiem (Some (u ! k)) (drop (Suc k) u)")
    case None
    then have "matchSpaces k p u \<noteq> None"
      using Suc.prems(1) by simp
    then have "matchSpaces k p (u @ v) \<noteq> None"
      using Suc.IH Suc.prems(2,3) by simp
    then show ?thesis by (auto split: option.splits)
  next
    case (Some x)
    have "\<not> wordBefore (if drop (Suc k) u = [] then Some (u ! k) else Some (last (drop (Suc k) u)))"
    proof (cases "drop (Suc k) u = []")
      case True
      then show ?thesis using sp by (simp add: wordBefore_def isSpace_not_word)
    next
      case False
      then have "last (drop (Suc k) u) = last u" "u \<noteq> []"
        by (auto simp: last_drop)
      then show ?thesis using False Suc.prems(3) by simp
    qed
    then have "matchMeridiem (Some (u ! k)) (drop (Suc k) u @ v) \<noteq> None"
      using Some by (intro matchMeridiem_extend) simp_all
    then show ?thesis
      using k by (auto simp: nth_append split: option.splits)
  qed
qed

lemma matchTail_extend:
  assumes "matchTail p u \<noteq> None" and "\<not> wordBefore (if u = [] then p else Some (last u))"
  shows "matchTail p (u @ v) \<noteq> None"
proof -
  have "length (takeWhile isSpace u) \<le> length (takeWhile isSpace (u @ v))"
    by (induction u) auto
  moreover have "matchSpaces (length (takeWhile isSpace u)) p (u @ v) \<noteq> None"
    using assms by (intro matchSpaces_extend) (simp_all add: matchTail_def)
  ultimately show ?thesis
    unfolding matchTail_def by (rule matchSpaces_more [rotated])
qed

lemma matchNoMinutes_iff: "matchNoMinutes p r \<noteq> None \<longleftrightarrow> matchTail p r \<noteq> None"
  by (auto simp: matchNoMinutes_def split: option.splits)

lemma matchMinutes_fallback: "matchNoMinutes p r \<noteq> None \<Longrightarrow> matchMinutes p r \<noteq> None"
  by (induction p r rule: matchMinutes.induct) (auto split: option.splits)

lemma matchMinutes_cases:
  assumes "matchMinutes p r \<noteq> None"
  shows "matchNoMinutes p r \<noteq> None
    \<or> (\<exists>m1 m2 r'. r = COLON # m1 # m2 # r' \<and> isDigit m1 \<and> isDigit m2
          \<and> matchTail (Some m2) r' \<noteq> None)"
  using assms
  by (induction p r rule: matchMinutes.induct) (auto split: option.splits if_splits)

lemma matchMinutes_extend:
  assumes "matchMinutes p u \<noteq> None" and "\<not> wordBefore (if u = [] then p else Some (last u))"
  shows "matchMinutes p (u @ v) \<noteq> None"
  using matchMinutes_cases [OF assms(1)]
proof (elim disjE exE conjE)
  assume "matchNoMinutes p u \<noteq> None"
  then have "matchTail p u \<noteq> None"
    unfolding matchNoMinutes_iff .
  then have "matchTail p (u @ v) \<noteq> None"
    using assms(2) by (rule matchTail_extend)
  then have "matchNoMinutes p (u @ v) \<noteq> None"
    unfolding matchNoMinutes_iff .
  then show ?thesis by (rule matchMinutes_fallback)
next
  fix m1 m2 r'
  assume u: "u = COLON # m1 # m2 # r'" and d: "isDigit m1" "isDigit m2"
    and t: "matchTail (Some m2) r' \<noteq> None"
  have "r' \<noteq> []"
    using assms(2) u d by (auto simp: wordBefore_def isDigit_word)
  then have "\<not> wordBefore (if r' = [] then Some m2 else Some (last r'))"
    using assms(2) u by simp
  with t have "matchTail (Some m2) (r' @ v) \<noteq> None"
    by (rule matchTail_extend)
  then show ?thesis
    using u d by (auto split: option.splits)
qed

lemma matchOneDigit_iff: "matchOneDigit d r \<noteq> None \<longleftrightarrow> matchMinutes (Some d) r \<noteq> None"
  by (auto simp: matchOneDigit_def split: option.splits)

lemma matchDigits_extend:
  assumes "matchDigits u \<noteq> None" and "u \<noteq> [] \<Longrightarrow> \<not> isWordChar (last u)"
  shows "matchDigits (u @ v) \<noteq> None"
proof (cases u rule: matchDigits.cases)
  case 1
  with assms show ?thesis by simp
next
  case (2 d1)
  with assms show ?thesis by (auto simp: isDigit_word split: if_splits)
next
  case (3 d1 d2 r)
  have d1: "isDigit d1"
    using assms(1) 3 by (auto split: if_splits)
  have one: "matchOneDigit d1 (d2 # r @ v) \<noteq> None" if "matchOneDigit d1 (d2 # r) \<noteq> None"
  proof -
    have "matchMinutes (Some d1) (d2 # r) \<noteq> None"
      using that unfolding matchOneDigit_iff .
    moreover have "\<not> wordBefore (if d2 # r = [] then Some d1 else Some (last (d2 # r)))"
      using assms(2) 3 by (simp add: wordBefore_def)
    ultimately have "matchMinutes (Some d1) ((d2 # r) @ v) \<noteq> None"
      by (rule matchMinutes_extend)
    then show ?thesis unfolding matchOneDigit_iff by simp
  qed
  show ?thesis
  proof (cases "isDigit d2 \<and> matchMinutes (Some d2) r \<noteq> None")
    case True
    have "r \<noteq> []"
      using assms(2) 3 True by (auto simp: isDigit_word)
    then have "\<not> wordBefore (if r = [] then Some d2 else Some (last r))"
      using assms(2) 3 by (simp add: wordBefore_def)
    with True have "matchMinutes (Some d2) (r @ v) \<noteq> None"
      by (intro matchMinutes_extend) simp_all
    then show ?thesis
      using 3 d1 True by (auto split: option.splits)
  next
    case False
    then have "matchOneDigit d1 (d2 # r) \<noteq> None"
      using assms(1) 3 d1 by (auto split: if_splits option.splits)
    then have "matchOneDigit d1 (d2 # r @ v) \<noteq> None"
      by (rule one)
    then show ?thesis
      using 3 d1 by (auto split: option.splits)
  qed
qed

lemma searchTime_extend:
  assumes "searchTime i p u \<noteq> None" and "\<not> wordBefore (if u = [] then p else Some (last u))"
  shows "searchTime i p (u @ v) \<noteq> None"
  using assms
proof (induction u arbitrary: i p)
  case Nil
  then show ?case by simp
next
  case (Cons c cs)
  show ?case
  proof (cases "matchTimeAt p (c # cs)")
    case (Some x)
    then have "matchTimeAt p (c # cs) \<noteq> None"
      by simp
    then have "wordBoundary p (c # cs)" "matchDigits (c # cs) \<noteq> None"
      by (simp_all add: matchTimeAt_def split: if_splits del: not_None_eq)
    moreover have "\<not> isWordChar (last (c # cs))"
      using Cons.prems(2) by (simp add: wordBefore_def)
    ultimately have "wordBoundary p ((c # cs) @ v)" "matchDigits ((c # cs) @ v) \<noteq> None"
      by (simp_all add: wordBoundary_append matchDigits_extend del: append_Cons)
    then have "matchTimeAt p (c # cs @ v) \<noteq> None"
      by (simp add: matchTimeAt_def)
    then show ?thesis by (auto split: option.splits)
  next
    case None
    then have s: "searchTime (Suc i) (Some c) cs \<noteq> None"
      using Cons.prems(1) by simp
    then have "cs \<noteq> []" by auto
    then have "\<not> wordBefore (if cs = [] then Some c else Some (last cs))"
      using Cons.prems(2) by simp
    with s have "searchTime (Suc i) (Some c) (cs @ v) \<noteq> None"
      by (rule Cons.IH)
    then show ?thesis by (auto split: option.splits)
  qed
qed

lemma splitRangeFrom_first:
  assumes "splitRangeFrom cur p r = a # b # bs"
  shows "\<exists>u v. r = u @ v \<and> a = rev cur @ u
           \<and> \<not> wordBefore (if u = [] then p else Some (last u))"
  using assms
proof (induction cur p r rule: splitRangeFrom.induct)
  case (1 cur p)
  then show ?case by simp
next
  case (2 cur p c cs)
  show ?case
  proof (cases "matchRangeWordAt p (c # cs)")
    case (Some n)
    then have "\<not> wordBefore p"
      by (auto simp: matchRangeWordAt_def split: if_splits)
    moreover have "a = rev cur"
      using "2.prems" Some by simp
    ultimately show ?thesis by auto
  next
    case None
    then have "splitRangeFrom (c # cur) (Some c) cs = a # b # bs"
      using "2.prems" by simp
    with "2.IH"(1) [OF None] obtain u v where uv: "cs = u @ v" "a = rev (c # cur) @ u"
      "\<not> wordBefore (if u = [] then Some c else Some (last u))"
      by blast
    have "c # cs = (c # u) @ v" "a = rev cur @ (c # u)"
      "\<not> wordBefore (if c # u = [] then p else Some (last (c # u)))"
      using uv by (simp_all split: if_splits)
    then show ?thesis by blast
  qed
qed

lemma range_start_in_line:
  assumes "splitRange line = [part0, part1]" and "matchTime part0 \<noteq> None"
  shows "matchTime line \<noteq> None"
proof -
  from splitRangeFrom_first [of "[]" None line part0 part1 "[]"] assms(1)
  obtain v where v: "line = part0 @ v"
    "\<not> wordBefore (if part0 = [] then None else Some (last part0))"
    by (auto simp: splitRange_def)
  have "searchTime 0 None (part0 @ v) \<noteq> None"
    using assms(2) v(2) by (intro searchTime_extend) (simp_all add: matchTime_def)
  then show ?thesis
    by (simp add: matchTime_def v(1))
qed

section \<open>Bare numbers\<close>

lemma matchMinutes_boundary: "wordBoundary p r \<Longrightarrow> matchMinutes p r \<noteq> None"
proof -
  assume "wordBoundary p r"
  then have "matchSpaces 0 p r \<noteq> None"
    by (simp add: matchMeridiem_fallback)
  then have "matchTail p r \<noteq> None"
    unfolding matchTail_def by (rule matchSpaces_more) simp
  then have "matchNoMinutes p r \<noteq> None"
    unfolding matchNoMinutes_iff .
  then show ?thesis
    by (rule matchMinutes_fallback)
qed

lemma bareNumberAt_match: "bareNumberAt p r \<Longrightarrow> matchTimeAt p r \<noteq> None"
proof (induction p r rule: bareNumberAt.induct)
  case (1 p)
  then show ?case by simp
next
  case (2 p d1)
  then have "matchMinutes (Some d1) [] \<noteq> None"
    by (intro matchMinutes_boundary)
       (simp add: wordBoundary_def wordBefore_def wordAfter_def isDigit_word)
  then have "matchOneDigit d1 [] \<noteq> None"
    unfolding matchOneDigit_iff .
  with 2 show ?case
    by (simp add: matchTimeAt_def wordBoundary_def wordAfter_def isDigit_word
        del: not_None_eq)
next
  case (3 p d1 d2 r)
  then have b: "wordBoundary p (d1 # d2 # r)" and d1: "isDigit d1"
    by (simp_all add: wordBoundary_def wordAfter_def isDigit_word)
  have "matchDigits (d1 # d2 # r) \<noteq> None"
  proof (cases "isDigit d2")
    case True
    then have "\<not> wordAfter r"
      using 3 by (auto simp: isDigit_word)
    then have "matchMinutes (Some d2) r \<noteq> None"
      using True by (intro matchMinutes_boundary)
        (simp add: wordBoundary_def wordBefore_def isDigit_word)
    then show ?thesis
      using d1 True by (auto split: option.splits)
  next
    case False
    then have "\<not> isWordChar d2"
      using 3 by auto
    then have "matchMinutes (Some d1) (d2 # r) \<noteq> None"
      using d1 by (intro matchMinutes_boundary)
        (simp add: wordBoundary_def wordBefore_def wordAfter_def isDigit_word)
    then have "matchOneDigit d1 (d2 # r) \<noteq> None"
      unfolding matchOneDigit_iff .
    then show ?thesis
      using d1 False by (simp del: not_None_eq)
  qed
  with b show ?case
    by (simp add: matchTimeAt_def)
qed

lemma hasBareNumberFrom_match: "hasBareNumberFrom p r \<Longrightarrow> searchTime i p r \<noteq> None"
proof (induction p r arbitrary: i rule: hasBareNumberFrom.induct)
  case (1 p)
  then show ?case by simp
next
  case (2 p c cs)
  show ?case
  proof (cases "matchTimeAt p (c # cs)")
    case None
    then have "\<not> bareNumberAt p (c # cs)"
      using bareNumberAt_match by blast
    with 2 None show ?thesis by simp
  next
    case (Some x)
    then show ?thesis by (auto split: prod.splits)
  qed
qed

lemma hasBareNumber_match: "hasBareNumber line \<Longrightarrow> matchTime line \<noteq> None"
  by (simp add: hasBareNumber_def matchTime_def hasBareNumberFrom_match)

lemma rowOfLine_time_absent:
  assumes "rowOfLine line = Inr r"
  shows "time r = [EMDASH] \<longleftrightarrow> matchTime line = None"
proof -
  from rowOfLine_row [of line] assms consider
    (absent) "time r = [EMDASH]" "matchTime line = None"
  | (single) "isTime 87 99 (time r)" "matchTime line \<noteq> None"
  | (range) part0 part1 t0 t1 where "splitRange line = [part0, part1]"
      "matchTime part0 \<noteq> None" "time r = t0 @ [ENDASH] @ t1"
    by auto
  then show ?thesis
  proof cases
    case absent
    then show ?thesis by simp
  next
    case single
    then show ?thesis using isTime_no_dash [of 87 99 "time r"] by auto
  next
    case range
    have "matchTime line \<noteq> None"
      using range(1,2) by (rule range_start_in_line)
    moreover have "time r \<noteq> [EMDASH]"
      using range(3) by (auto simp: append_eq_Cons_conv)
    ultimately show ?thesis by simp
  qed
qed

section \<open>The guard of the range step\<close>

text \<open>
  The test \<^verbatim>\<open>lower.includes('till') || lower.includes('to')\<close> never decides the result: when
  the split has two pieces, the pattern has matched one of the two words, in some mix of
  ASCII cases, and then the lower-cased line includes that word. So the range step is a
  function of the split alone, whatever \<^verbatim>\<open>toLowerCase\<close> does outside the ASCII letters.
\<close>

lemma includesStr_append:
  "take (length w) s = w \<Longrightarrow> w \<noteq> [] \<Longrightarrow> includesStr w (pre @ s)"
proof (induction pre)
  case Nil
  then show ?case by (cases s) auto
next
  case (Cons c pre)
  then show ?case by simp
qed

lemma matchWordAt_includes:
  assumes "matchWordAt w r" and "w \<noteq> []"
  shows "includesStr w (toLowerCase (pre @ r))"
proof -
  have "take (length w) (toLowerCase r) = w"
    using assms(1) by (simp add: matchWordAt_def toLowerCase_def take_map)
  then have "includesStr w (toLowerCase pre @ toLowerCase r)"
    using assms(2) by (rule includesStr_append)
  then show ?thesis
    by (simp add: toLowerCase_def)
qed

lemma splitRangeFrom_word:
  assumes "splitRangeFrom cur p r = a # b # bs"
  shows "\<exists>pre r'. r = pre @ r' \<and> (matchWordAt (str ''till'') r' \<or> matchWordAt (str ''to'') r')"
  using assms
proof (induction cur p r arbitrary: a rule: splitRangeFrom.induct)
  case (1 cur p)
  then show ?case by simp
next
  case (2 cur p c cs)
  show ?case
  proof (cases "matchRangeWordAt p (c # cs)")
    case (Some n)
    then have "matchWordAt (str ''till'') (c # cs) \<or> matchWordAt (str ''to'') (c # cs)"
      by (auto simp: matchRangeWordAt_def split: if_splits)
    then show ?thesis
      by (intro exI [of _ "[]"] exI [of _ "c # cs"]) simp
  next
    case None
    then have "splitRangeFrom (c # cur) (Some c) cs = a # b # bs"
      using "2.prems" by simp
    with "2.IH"(1) [OF None] obtain pre r' where "cs = pre @ r'"
      "matchWordAt (str ''till'') r' \<or> matchWordAt (str ''to'') r'"
      by blast
    then have "c # cs = (c # pre) @ r'
        \<and> (matchWordAt (str ''till'') r' \<or> matchWordAt (str ''to'') r')"
      by simp
    then show ?thesis by blast
  qed
qed

lemma splitRange_guard:
  assumes "splitRange line = [part0, part1]"
  shows "includesStr (str ''till'') (toLowerCase line) \<or> includesStr (str ''to'') (toLowerCase line)"
proof -
  from splitRangeFrom_word [of "[]" None line part0 part1 "[]"] assms
  obtain pre r' where "line = pre @ r'"
    "matchWordAt (str ''till'') r' \<or> matchWordAt (str ''to'') r'"
    by (auto simp: splitRange_def)
  then show ?thesis
    using matchWordAt_includes [of "str ''till''" r' pre] matchWordAt_includes [of "str ''to''" r' pre]
    by (auto simp: str_def)
qed

lemma rangeStep_split:
  "rangeStep line activity0 =
     (case splitRange line of
        [part0, part1] \<Rightarrow>
          if truthy (normalizeTime (matchTime part0)) \<and> truthy (normalizeTime (matchTime part1))
          then (orEmpty (normalizeTime (matchTime part0)) @ [ENDASH]
                  @ orEmpty (normalizeTime (matchTime part1)), trim (removeTime part0))
          else ([], activity0)
      | _ \<Rightarrow> ([], activity0))"
proof (cases "\<exists>part0 part1. splitRange line = [part0, part1]")
  case True
  then obtain part0 part1 where s: "splitRange line = [part0, part1]"
    by blast
  from splitRange_guard [OF s] show ?thesis
    by (simp add: rangeStep_def Let_def s)
next
  case False
  then show ?thesis
    by (auto simp: rangeStep_def Let_def split: list.splits)
qed

section \<open>The time of a row and its match\<close>

lemma normalizeTime_bound:
  assumes "matchTime s = Some m" and "normalizeTime (Some m) = Some t"
  shows "isTime (hourBound m) (minuteBound m) t"
proof -
  have v: "validMatch m"
    using assms(1) by (rule matchTime_valid)
  have "hour12 (hourOf m) \<le> hourBound m"
    using hour12_bound [OF v] hour12_small [of "hourOf m"] by (simp add: hourBound_def)
  moreover have "minuteOf m \<le> minuteBound m"
    using minuteOf_le [OF v] by (simp add: minuteBound_def)
  ultimately show ?thesis
    using normalizeTime_isTime_bounds [OF assms(1)] assms by auto
qed

lemma truthy_Some:
  assumes "truthy (normalizeTime (matchTime s))"
  shows "\<exists>m t. matchTime s = Some m \<and> normalizeTime (Some m) = Some t
           \<and> orEmpty (normalizeTime (matchTime s)) = t \<and> t \<noteq> []"
proof -
  obtain m where m: "matchTime s = Some m"
    using assms unfolding truthy_normalizeTime by blast
  obtain t where t: "normalizeTime (Some m) = Some t" "t \<noteq> []"
    using assms m by (auto simp: truthy_def split: option.splits)
  then show ?thesis
    using m by (simp add: orEmpty_def)
qed

lemma rowOfLine_time_source:
  assumes "rowOfLine line = Inr r"
  shows "(time r = [EMDASH] \<and> matchTime line = None)
    \<or> (\<exists>m. matchTime line = Some m \<and> normalizeTime (Some m) = Some (time r))
    \<or> (\<exists>part0 part1 m0 m1 t0 t1. splitRange line = [part0, part1]
          \<and> matchTime part0 = Some m0 \<and> matchTime part1 = Some m1
          \<and> normalizeTime (Some m0) = Some t0 \<and> normalizeTime (Some m1) = Some t1
          \<and> time r = t0 @ [ENDASH] @ t1)"
proof -
  let ?a = "snd (durationStep line)"
  obtain t a where ra: "rangeStep line ?a = (t, a)"
    by (cases "rangeStep line ?a") auto
  show ?thesis
  proof (cases "t = []")
    case False
    then obtain part0 part1 where sp: "splitRange line = [part0, part1]"
      and tr: "truthy (normalizeTime (matchTime part0))" "truthy (normalizeTime (matchTime part1))"
      and t: "t = orEmpty (normalizeTime (matchTime part0)) @ [ENDASH]
                    @ orEmpty (normalizeTime (matchTime part1))"
      using ra by (auto simp: rangeStep_def Let_def split: if_splits list.splits)
    from truthy_Some [OF tr(1)] obtain m0 t0 where m0: "matchTime part0 = Some m0"
      "normalizeTime (Some m0) = Some t0" "orEmpty (normalizeTime (matchTime part0)) = t0"
      by blast
    from truthy_Some [OF tr(2)] obtain m1 t1 where m1: "matchTime part1 = Some m1"
      "normalizeTime (Some m1) = Some t1" "orEmpty (normalizeTime (matchTime part1)) = t1"
      by blast
    have "singleStep line (t, a) = Inr (t, a)"
      using False by (simp add: singleStep_range)
    then have "time r = t"
      using assms ra False by (auto simp: rowOfLine_eq)
    then have "time r = t0 @ [ENDASH] @ t1"
      using t m0(3) m1(3) by simp
    with sp m0(1,2) m1(1,2) show ?thesis by blast
  next
    case True
    show ?thesis
    proof (cases "matchTime line")
      case None
      then have "singleStep line (t, a) = Inr (t, a)"
        by (rule singleStep_None)
      then have "time r = [EMDASH]"
        using assms ra True by (auto simp: rowOfLine_eq)
      with None show ?thesis by simp
    next
      case (Some m)
      from singleStep_Some [OF Some, of "(t, a)"] True obtain t'
        where s: "singleStep line (t, a)
                    = Inr (t', trim (removeFiller (removeFirst (whole m) line)))"
          "normalizeTime (matchTime line) = Some t'" "isTime 87 99 t'"
        by auto
      have "t' \<noteq> []"
        using s(3) by (rule isTime_not_empty)
      then have "time r = t'"
        using assms ra s(1) by (auto simp: rowOfLine_eq)
      then show ?thesis
        using Some s(2) by simp
    qed
  qed
qed

section \<open>Vertical bars in a row\<close>








section \<open>Time normalization\<close>

text \<open>
  C3, as stated, fails: the pattern accepts any two digits as the hour, and an hour above
  24 is still above 12 after the first normalization, so a second normalization takes 12
  off again.
\<close>

theorem normalizeTime_idempotent_counterexample:
  "normalizeTime (matchTime (str ''25'')) = Some (str ''13:00 PM'')
   \<and> normalizeTime (matchTime (str ''13:00 PM'')) = Some (str ''1:00 PM'')
   \<and> str ''13:00 PM'' \<noteq> str ''1:00 PM''"
  by code_simp

text \<open>
  C3, amended: for every time expression that the time pattern matches with an hour of at
  most 24, matching the canonical output of \<^verbatim>\<open>normalizeTime\<close> again and normalizing it again
  yields the identical string.
\<close>

theorem normalizeTime_idempotent:
  assumes "matchTime s = Some m" and "hourOf m \<le> 24"
  shows "\<exists>t. normalizeTime (matchTime s) = Some t \<and> normalizeTime (matchTime t) = Some t"
proof -
  have v: "validMatch m"
    using assms(1) by (rule matchTime_valid)
  let ?t = "canonical (hour12 (hourOf m)) (minuteOf m) (meridiemOf m)"
  have first: "normalizeTime (matchTime s) = Some ?t"
    using normalizeTime_canonical [OF v] assms(1) by simp
  have "1 \<le> hour12 (hourOf m)"
    using hour12_range [OF hourOf_bound [OF v]] by simp
  moreover have "hour12 (hourOf m) \<le> 12"
    using assms(2) by (rule hour12_small)
  ultimately have "normalizeTime (matchTime ?t) = Some ?t"
    using minuteOf_bound [OF v] meridiemOf_cases [OF v] by (intro renormalize_canonical)
  with first show ?thesis by blast
qed

theorem normalizeTime_idempotent_witness:
  "matchTime (str ''13:00'')
     = Some \<lparr>index = 0, whole = str ''13:00'', g1 = str ''13'', g2 = Some (str ''00''), g3 = None\<rparr>
   \<and> hourOf \<lparr>index = 0, whole = str ''13:00'', g1 = str ''13'', g2 = Some (str ''00''), g3 = None\<rparr> \<le> 24
   \<and> (\<exists>t. normalizeTime (matchTime (str ''13:00'')) = Some t
          \<and> normalizeTime (matchTime t) = Some t)"
proof -
  let ?m = "\<lparr>index = 0, whole = str ''13:00'', g1 = str ''13'', g2 = Some (str ''00''), g3 = None\<rparr>"
  have m: "matchTime (str ''13:00'') = Some ?m"
    by code_simp
  have h: "hourOf ?m \<le> 24"
    by code_simp
  show ?thesis
    using m h normalizeTime_idempotent [OF m h] by blast
qed

text \<open>
  C4: when the matched time expression has no meridiem, \<^verbatim>\<open>normalizeTime\<close> gives AM to the
  hours 7 to 11 and PM to every other hour, and an hour above 12 loses 12; "7:30" becomes
  "7:30 AM" and "13:00" becomes "1:00 PM".
\<close>

theorem normalizeTime_infers_meridiem:
  "(matchTime s = Some m \<and> g3 m = None \<longrightarrow>
      normalizeTime (matchTime s)
        = Some (canonical (hour12 (hourOf m)) (minuteOf m)
                  (if 7 \<le> hourOf m \<and> hourOf m \<le> 11 then str ''AM'' else str ''PM'')))
   \<and> normalizeTime (matchTime (str ''7:30'')) = Some (str ''7:30 AM'')
   \<and> normalizeTime (matchTime (str ''13:00'')) = Some (str ''1:00 PM'')"
proof (intro conjI impI)
  assume a: "matchTime s = Some m \<and> g3 m = None"
  then have v: "validMatch m"
    by (blast intro: matchTime_valid)
  have "meridiemOf m = (if 7 \<le> hourOf m \<and> hourOf m \<le> 11 then str ''AM'' else str ''PM'')"
    using a by (simp add: meridiemOf_def)
  then show "normalizeTime (matchTime s)
      = Some (canonical (hour12 (hourOf m)) (minuteOf m)
                (if 7 \<le> hourOf m \<and> hourOf m \<le> 11 then str ''AM'' else str ''PM''))"
    using normalizeTime_canonical [OF v] a by simp
next
  show "normalizeTime (matchTime (str ''7:30'')) = Some (str ''7:30 AM'')"
    by code_simp
next
  show "normalizeTime (matchTime (str ''13:00'')) = Some (str ''1:00 PM'')"
    by code_simp
qed

theorem normalizeTime_infers_meridiem_witness:
  "matchTime (str ''at 9'')
     = Some \<lparr>index = 3, whole = str ''9'', g1 = str ''9'', g2 = None, g3 = None\<rparr>
   \<and> normalizeTime (matchTime (str ''at 9'')) = Some (str ''9:00 AM'')"
proof -
  let ?m = "\<lparr>index = 3, whole = str ''9'', g1 = str ''9'', g2 = None, g3 = None\<rparr>"
  have m: "matchTime (str ''at 9'') = Some ?m"
    by code_simp
  have c: "canonical (hour12 (hourOf ?m)) (minuteOf ?m)
             (if 7 \<le> hourOf ?m \<and> hourOf ?m \<le> 11 then str ''AM'' else str ''PM'')
           = str ''9:00 AM''"
    by code_simp
  have "normalizeTime (matchTime (str ''at 9'')) = Some (str ''9:00 AM'')"
    using normalizeTime_infers_meridiem [of "str ''at 9''" ?m] m c by simp
  with m show ?thesis by simp
qed

text \<open>
  C5, as stated, fails: for "0:15" the result is not "12:00 PM", the minutes are kept.
\<close>

theorem normalizeTime_hour_zero_counterexample:
  "normalizeTime (matchTime (str ''0:15'')) \<noteq> Some (str ''12:00 PM'')"
  by code_simp

text \<open>
  C5, amended: for "0:15" with no meridiem \<^verbatim>\<open>normalizeTime\<close> produces "12:15 PM" and not
  "12:15 AM"; the meridiem is inferred before hour 0 becomes 12, so any match with hour 0
  and no meridiem gets 12 and PM with its own minutes, and the bare hour "0" gives
  "12:00 PM".
\<close>

theorem normalizeTime_hour_zero:
  "normalizeTime (matchTime (str ''0:15'')) = Some (str ''12:15 PM'')
   \<and> normalizeTime (matchTime (str ''0:15'')) \<noteq> Some (str ''12:15 AM'')
   \<and> normalizeTime (matchTime (str ''0'')) = Some (str ''12:00 PM'')
   \<and> (matchTime s = Some m \<and> hourOf m = 0 \<and> g3 m = None \<longrightarrow>
        normalizeTime (matchTime s) = Some (canonical 12 (minuteOf m) (str ''PM'')))"
proof (intro conjI impI)
  show "normalizeTime (matchTime (str ''0:15'')) = Some (str ''12:15 PM'')"
    by code_simp
next
  show "normalizeTime (matchTime (str ''0:15'')) \<noteq> Some (str ''12:15 AM'')"
    by code_simp
next
  show "normalizeTime (matchTime (str ''0'')) = Some (str ''12:00 PM'')"
    by code_simp
next
  assume a: "matchTime s = Some m \<and> hourOf m = 0 \<and> g3 m = None"
  then have v: "validMatch m"
    by (blast intro: matchTime_valid)
  show "normalizeTime (matchTime s) = Some (canonical 12 (minuteOf m) (str ''PM''))"
    using normalizeTime_canonical [OF v] a by (simp add: hour12_def meridiemOf_def)
qed

theorem normalizeTime_hour_zero_witness:
  "matchTime (str ''00:05'')
     = Some \<lparr>index = 0, whole = str ''00:05'', g1 = str ''00'', g2 = Some (str ''05''), g3 = None\<rparr>
   \<and> normalizeTime (matchTime (str ''00:05'')) = Some (str ''12:05 PM'')"
proof -
  let ?m = "\<lparr>index = 0, whole = str ''00:05'', g1 = str ''00'', g2 = Some (str ''05''), g3 = None\<rparr>"
  have m: "matchTime (str ''00:05'') = Some ?m"
    by code_simp
  have h: "hourOf ?m = 0"
    by code_simp
  have c: "canonical 12 (minuteOf ?m) (str ''PM'') = str ''12:05 PM''"
    by code_simp
  have "normalizeTime (matchTime (str ''00:05'')) = Some (str ''12:05 PM'')"
    using normalizeTime_hour_zero [of "str ''00:05''" ?m] m h c by simp
  with m show ?thesis by simp
qed

section \<open>Rows\<close>

text \<open>
  C6: the line "Classes from 8:00 AM to 3:30 PM" gives the time field "8:00 AM", an en
  dash, "3:30 PM", and the activity "Classes from".
\<close>

theorem range_row_example:
  "rowOfLine (str ''Classes from 8:00 AM to 3:30 PM'')
     = Inr \<lparr>time = str ''8:00 AM'' @ [ENDASH] @ str ''3:30 PM'',
            activity = str ''Classes from'', notes = []\<rparr>"
  by code_simp

text \<open>
  C7: for the line "Library till 5:20 PM - tabs! [2hrs]!!!" the notes are "2hrs", but the
  activity still holds the bracketed fragment: the single time step rebuilds the activity
  from the line, and the text without the fragment is lost. Built from the working text,
  the activity is "Library till - tabs".
\<close>

theorem bracket_row_example:
  "rowOfLine (str ''Library till 5:20 PM - tabs! [2hrs]!!!'')
     = Inr \<lparr>time = str ''5:20 PM'', activity = str ''Library till - tabs [2hrs]'',
            notes = str ''2hrs''\<rparr>
   \<and> includesStr (str ''[2hrs]'') (str ''Library till - tabs [2hrs]'')
   \<and> rowOfWorkingText (str ''Library till 5:20 PM - tabs! [2hrs]!!!'')
     = Inr \<lparr>time = str ''5:20 PM'', activity = str ''Library till - tabs'',
            notes = str ''2hrs''\<rparr>"
  by code_simp

text \<open>
  C8: the range step splits the line and the single time step searches the line, not the
  working text. For "Gym [1 to 2]" and for "Nap [at 3]" the working texts "Gym" and "Nap"
  have no time, so a row built from the working text has no time and the activity "Gym"
  or "Nap"; the code finds a range and a time inside the brackets.
\<close>

theorem working_text_example:
  "rowOfLine (str ''Gym [1 to 2]'')
     = Inr \<lparr>time = str ''1:00 PM'' @ [ENDASH] @ str ''2:00 PM'', activity = str ''Gym ['',
            notes = str ''1 to 2''\<rparr>
   \<and> rowOfWorkingText (str ''Gym [1 to 2]'')
     = Inr \<lparr>time = [EMDASH], activity = str ''Gym'', notes = str ''1 to 2''\<rparr>
   \<and> rowOfLine (str ''Nap [at 3]'')
     = Inr \<lparr>time = str ''3:00 PM'', activity = str ''Nap [ ]'', notes = str ''at 3''\<rparr>
   \<and> rowOfWorkingText (str ''Nap [at 3]'')
     = Inr \<lparr>time = [EMDASH], activity = str ''Nap'', notes = str ''at 3''\<rparr>"
  by code_simp

section \<open>The table\<close>




text \<open>
  C2: for every input string the number of body rows of the table is the number of input
  lines that are not blank, and with no such line the table is the header row and the
  separator row only.
\<close>

theorem body_rows_count:
  "\<exists>out. localFormatToTable content = Inr out
      \<and> length (bodyRows out) = length (nonBlankLines content)
      \<and> (nonBlankLines content = [] \<longrightarrow> out = header @ [LF] @ sep @ [LF])"
proof -
  obtain rows where rows: "rowsOf (linesOf content) = Inr rows"
    "list_all2 (\<lambda>l r. rowOfLine l = Inr r) (linesOf content) rows"
    using rowsOf_total by blast
  note r = rows_of_lines [OF rows(2)]
  let ?out = "header @ [LF] @ sep @ [LF] @ joinLines (map renderRow rows)"
  have out: "localFormatToTable content = Inr ?out"
    using rows(1) by (simp add: localFormatToTable_def)
  have rendered: "\<forall>x \<in> set (map renderRow rows). LF \<notin> set x \<and> x \<noteq> []"
    using r by (auto simp: renderRow_not_empty)
  have len: "length rows = length (nonBlankLines content)"
    using list_all2_lengthD [OF rows(2)] by (simp add: length_linesOf)
  have "length (bodyRows ?out) = length (nonBlankLines content)"
    unfolding bodyRows_table [OF rendered] using len by simp
  moreover have "?out = header @ [LF] @ sep @ [LF]" if "nonBlankLines content = []"
    using that len by simp
  ultimately show ?thesis
    using out by blast
qed

theorem body_rows_count_witness:
  "nonBlankLines [SP, LF, CR, LF, 9] = []
   \<and> localFormatToTable [SP, LF, CR, LF, 9] = Inr (header @ [LF] @ sep @ [LF])
   \<and> length (bodyRows (header @ [LF] @ sep @ [LF])) = length (nonBlankLines [SP, LF, CR, LF, 9])
   \<and> nonBlankLines (str ''Gym 6 pm'' @ [CR, LF, SP, LF] @ str ''- read!'')
       = [str ''Gym 6 pm'', str ''- read!'']
   \<and> localFormatToTable (str ''Gym 6 pm'' @ [CR, LF, SP, LF] @ str ''- read!'')
       = Inr (header @ [LF] @ sep @ [LF] @ str ''| 6:00 PM | Gym | - |'' @ [LF]
              @ str ''| '' @ [EMDASH] @ str '' | read | - |'')
   \<and> length (bodyRows (header @ [LF] @ sep @ [LF] @ str ''| 6:00 PM | Gym | - |'' @ [LF]
              @ str ''| '' @ [EMDASH] @ str '' | read | - |'')) = 2"
proof -
  let ?content = "str ''Gym 6 pm'' @ [CR, LF, SP, LF] @ str ''- read!''"
  let ?table = "header @ [LF] @ sep @ [LF] @ str ''| 6:00 PM | Gym | - |'' @ [LF]
              @ str ''| '' @ [EMDASH] @ str '' | read | - |''"
  have n: "nonBlankLines [SP, LF, CR, LF, 9] = []"
    by code_simp
  have n2: "nonBlankLines ?content = [str ''Gym 6 pm'', str ''- read!'']"
    by code_simp
  have t2: "localFormatToTable ?content = Inr ?table"
    by code_simp
  have "length (bodyRows ?table) = 2"
    using body_rows_count [of ?content] n2 t2 by auto
  with body_rows_count [of "[SP, LF, CR, LF, 9]"] n n2 t2 show ?thesis
    by auto
qed

text \<open>
  C9, as stated, fails: the pattern takes any two digits as an hour and any two digits as
  a minute, so "25" becomes the hour 13 and "7:99" keeps the minute 99.
\<close>

theorem time_field_invariant_counterexample:
  "rowOfLine (str ''Ran 25 laps'')
     = Inr \<lparr>time = str ''13:00 PM'', activity = str ''Ran laps'', notes = []\<rparr>
   \<and> \<not> timeField 12 59 (str ''13:00 PM'')
   \<and> rowOfLine (str ''Up 7:99'')
     = Inr \<lparr>time = str ''7:99 AM'', activity = str ''Up'', notes = []\<rparr>
   \<and> \<not> timeField 12 59 (str ''7:99 AM'')"
  by code_simp

text \<open>
  C9, amended: every normalized time string placed in a row's time field is the result of
  \<^verbatim>\<open>normalizeTime\<close> for the match of the time pattern in the line (a single time) or in the
  piece of the line before and in the piece behind the range word (the two ends of a
  range). It has an explicit AM or PM, a minute written with two digits and an hour
  without a leading zero; the hour is between 1 and 12 when the matched hour is at most 24
  and between 1 and 87 otherwise, and the minute is between 0 and 59 when the matched
  minute is at most 59 and between 0 and 99 otherwise.
\<close>

theorem time_field_invariant:
  "rowOfLine line = Inr r \<longrightarrow>
     timeField 87 99 (time r)
     \<and> ((time r = [EMDASH] \<and> matchTime line = None)
        \<or> (\<exists>m. matchTime line = Some m \<and> normalizeTime (Some m) = Some (time r)
              \<and> isTime (hourBound m) (minuteBound m) (time r))
        \<or> (\<exists>part0 part1 m0 m1 t0 t1. splitRange line = [part0, part1]
              \<and> matchTime part0 = Some m0 \<and> matchTime part1 = Some m1
              \<and> normalizeTime (Some m0) = Some t0 \<and> normalizeTime (Some m1) = Some t1
              \<and> isTime (hourBound m0) (minuteBound m0) t0
              \<and> isTime (hourBound m1) (minuteBound m1) t1
              \<and> time r = t0 @ [ENDASH] @ t1))"
proof
  assume r: "rowOfLine line = Inr r"
  have "timeField 87 99 (time r)"
    using r by (rule rowOfLine_timeField)
  moreover from rowOfLine_time_source [OF r]
  have "(time r = [EMDASH] \<and> matchTime line = None)
        \<or> (\<exists>m. matchTime line = Some m \<and> normalizeTime (Some m) = Some (time r)
              \<and> isTime (hourBound m) (minuteBound m) (time r))
        \<or> (\<exists>part0 part1 m0 m1 t0 t1. splitRange line = [part0, part1]
              \<and> matchTime part0 = Some m0 \<and> matchTime part1 = Some m1
              \<and> normalizeTime (Some m0) = Some t0 \<and> normalizeTime (Some m1) = Some t1
              \<and> isTime (hourBound m0) (minuteBound m0) t0
              \<and> isTime (hourBound m1) (minuteBound m1) t1
              \<and> time r = t0 @ [ENDASH] @ t1)"
  proof (elim disjE exE conjE)
    assume "time r = [EMDASH]" "matchTime line = None"
    then show ?thesis by simp
  next
    fix m
    assume m: "matchTime line = Some m" "normalizeTime (Some m) = Some (time r)"
    then have "isTime (hourBound m) (minuteBound m) (time r)"
      by (rule normalizeTime_bound)
    with m show ?thesis by blast
  next
    fix part0 part1 m0 m1 t0 t1
    assume a: "splitRange line = [part0, part1]"
      "matchTime part0 = Some m0" "matchTime part1 = Some m1"
      "normalizeTime (Some m0) = Some t0" "normalizeTime (Some m1) = Some t1"
      "time r = t0 @ [ENDASH] @ t1"
    have "isTime (hourBound m0) (minuteBound m0) t0" "isTime (hourBound m1) (minuteBound m1) t1"
      using a(2-5) by (simp_all add: normalizeTime_bound)
    with a show ?thesis by blast
  qed
  ultimately show "timeField 87 99 (time r)
     \<and> ((time r = [EMDASH] \<and> matchTime line = None)
        \<or> (\<exists>m. matchTime line = Some m \<and> normalizeTime (Some m) = Some (time r)
              \<and> isTime (hourBound m) (minuteBound m) (time r))
        \<or> (\<exists>part0 part1 m0 m1 t0 t1. splitRange line = [part0, part1]
              \<and> matchTime part0 = Some m0 \<and> matchTime part1 = Some m1
              \<and> normalizeTime (Some m0) = Some t0 \<and> normalizeTime (Some m1) = Some t1
              \<and> isTime (hourBound m0) (minuteBound m0) t0
              \<and> isTime (hourBound m1) (minuteBound m1) t1
              \<and> time r = t0 @ [ENDASH] @ t1))"
    by blast
qed

theorem time_field_invariant_witness:
  "rowOfLine (str ''Gym 5 pm'')
     = Inr \<lparr>time = str ''5:00 PM'', activity = str ''Gym'', notes = []\<rparr>
   \<and> matchTime (str ''Gym 5 pm'')
       = Some \<lparr>index = 4, whole = str ''5 pm'', g1 = str ''5'', g2 = None,
               g3 = Some (str ''pm'')\<rparr>
   \<and> isTime 12 59 (str ''5:00 PM'')
   \<and> rowOfLine (str ''99:99'')
     = Inr \<lparr>time = str ''87:99 PM'', activity = [EMDASH], notes = []\<rparr>
   \<and> timeField 87 99 (str ''87:99 PM'')"
proof -
  let ?r = "\<lparr>time = str ''5:00 PM'', activity = str ''Gym'', notes = []\<rparr>"
  let ?m = "\<lparr>index = 4, whole = str ''5 pm'', g1 = str ''5'', g2 = None,
               g3 = Some (str ''pm'')\<rparr>"
  let ?r2 = "\<lparr>time = str ''87:99 PM'', activity = [EMDASH], notes = []\<rparr>"
  have row: "rowOfLine (str ''Gym 5 pm'') = Inr ?r"
    by code_simp
  have m: "matchTime (str ''Gym 5 pm'') = Some ?m"
    by code_simp
  have b: "hourBound ?m = 12" "minuteBound ?m = 59"
    by code_simp+
  have sp: "splitRange (str ''Gym 5 pm'') = [str ''Gym 5 pm'']"
    by code_simp
  have ne: "time ?r \<noteq> [EMDASH]"
    by code_simp
  have "isTime 12 59 (time ?r)"
    using time_field_invariant [of "str ''Gym 5 pm''" ?r] row m b sp ne by auto
  then have "isTime 12 59 (str ''5:00 PM'')"
    by simp
  moreover have row2: "rowOfLine (str ''99:99'') = Inr ?r2"
    by code_simp
  moreover have "timeField 87 99 (time ?r2)"
    using time_field_invariant [of "str ''99:99''" ?r2] row2 by blast
  ultimately show ?thesis
    using row m by simp
qed

text \<open>
  C10: the time field of a row is the absence marker exactly when the time pattern has
  no match in the line; a line with a bare number of one or two digits has a match, so
  it gets a normalized time and not the absence marker, as "Slept 8 hours" does.
\<close>

theorem time_absent_iff:
  "(rowOfLine line = Inr r \<longrightarrow>
      (time r = [EMDASH] \<longleftrightarrow> matchTime line = None)
      \<and> (hasBareNumber line \<longrightarrow> time r \<noteq> [EMDASH] \<and> timeField 87 99 (time r)))
   \<and> hasBareNumber (str ''Slept 8 hours'')
   \<and> rowOfLine (str ''Slept 8 hours'')
       = Inr \<lparr>time = str ''8:00 AM'', activity = str ''Slept hours'', notes = []\<rparr>"
proof (intro conjI impI)
  assume "rowOfLine line = Inr r"
  then show "time r = [EMDASH] \<longleftrightarrow> matchTime line = None"
    by (rule rowOfLine_time_absent)
next
  assume r: "rowOfLine line = Inr r" and b: "hasBareNumber line"
  have "matchTime line \<noteq> None"
    using b by (rule hasBareNumber_match)
  then show "time r \<noteq> [EMDASH]"
    using rowOfLine_time_absent [OF r] by simp
next
  assume "rowOfLine line = Inr r"
  then show "timeField 87 99 (time r)"
    by (rule rowOfLine_timeField)
next
  show "hasBareNumber (str ''Slept 8 hours'')"
    by code_simp
next
  show "rowOfLine (str ''Slept 8 hours'')
       = Inr \<lparr>time = str ''8:00 AM'', activity = str ''Slept hours'', notes = []\<rparr>"
    by code_simp
qed

theorem time_absent_iff_witness:
  "rowOfLine (str ''x8 y'') = Inr \<lparr>time = [EMDASH], activity = str ''x8 y'', notes = []\<rparr>
   \<and> matchTime (str ''x8 y'') = None
   \<and> hasBareNumber (str ''Call mom 9'')
   \<and> rowOfLine (str ''Call mom 9'')
       = Inr \<lparr>time = str ''9:00 AM'', activity = str ''Call mom'', notes = []\<rparr>
   \<and> str ''9:00 AM'' \<noteq> [EMDASH]
   \<and> timeField 87 99 (str ''9:00 AM'')"
proof -
  let ?r0 = "\<lparr>time = [EMDASH], activity = str ''x8 y'', notes = []\<rparr>"
  let ?r1 = "\<lparr>time = str ''9:00 AM'', activity = str ''Call mom'', notes = []\<rparr>"
  have r0: "rowOfLine (str ''x8 y'') = Inr ?r0"
    by code_simp
  have r1: "rowOfLine (str ''Call mom 9'') = Inr ?r1"
    by code_simp
  have b: "hasBareNumber (str ''Call mom 9'')"
    by code_simp
  have "matchTime (str ''x8 y'') = None"
    using time_absent_iff [of "str ''x8 y''" ?r0] r0 by simp
  moreover have "time ?r1 \<noteq> [EMDASH] \<and> timeField 87 99 (time ?r1)"
    using time_absent_iff [of "str ''Call mom 9''" ?r1] r1 b by blast
  ultimately show ?thesis
    using r0 r1 b by simp
qed

end
